theory Spec2Isabelle
  imports Main "HOL-Library.AList"
begin

section \<open>JavaScript objects used as dictionaries\<close>

text \<open>
  \<^verbatim>\<open>BootstrapCommand.js\<close> keeps its tables (\<^verbatim>\<open>depsToInstall\<close>, \<^verbatim>\<open>versions\<close>,
  \<^verbatim>\<open>dependents\<close>, \<^verbatim>\<open>leaves\<close>) in plain objects. Such an object is modelled by the list
  of its own properties in the order they were created; an assignment \<^verbatim>\<open>obj[k] = v\<close> is
  \<open>AList.update k v\<close> (an existing key keeps its place, a new one goes to the end).

  \<^verbatim>\<open>Object.keys\<close> does not return creation order as such: keys that are array indices
  (canonical decimal numerals below \<open>2^32 - 1\<close>, such as the range \<^verbatim>\<open>"15"\<close>) come first, in
  ascending numeric order, and the other keys follow in creation order.

  A read \<^verbatim>\<open>obj[k]\<close> of a key that is not an own property falls through to
  \<^verbatim>\<open>Object.prototype\<close>: for the names below it yields a built-in member (which is truthy),
  for every other name \<^verbatim>\<open>undefined\<close>.

  The keys of a list are distinct, and \<^verbatim>\<open>__proto__\<close> is taken not to be an own key of the
  \<^verbatim>\<open>allDependencies\<close> objects the command is given (an assignment to that key sets the
  prototype instead of creating a property); a read of it is a read of an inherited member
  like the others.
\<close>

type_synonym 'v js_object = "(string \<times> 'v) list"

definition is_digit :: "char \<Rightarrow> bool" where
  "is_digit c = (48 \<le> (of_char c :: nat) \<and> (of_char c :: nat) \<le> 57)"

definition decimal_value :: "string \<Rightarrow> nat" where
  "decimal_value s = foldl (\<lambda>n c. 10 * n + ((of_char c :: nat) - 48)) 0 s"

definition is_array_index :: "string \<Rightarrow> bool" where
  "is_array_index s =
     (s \<noteq> [] \<and> list_all is_digit s \<and> (hd s \<noteq> CHR ''0'' \<or> s = ''0'')
      \<and> decimal_value s < 2 ^ 32 - 1)"

definition object_entries :: "'v js_object \<Rightarrow> (string \<times> 'v) list" where
  "object_entries obj =
     sort_key (\<lambda>kv. decimal_value (fst kv)) (filter (\<lambda>kv. is_array_index (fst kv)) obj)
     @ filter (\<lambda>kv. \<not> is_array_index (fst kv)) obj"

definition object_keys :: "'v js_object \<Rightarrow> string list" where
  "object_keys obj = map fst (object_entries obj)"

definition object_prototype_names :: "string list" where
  "object_prototype_names =
     [''constructor'', ''__defineGetter__'', ''__defineSetter__'', ''hasOwnProperty'',
      ''__lookupGetter__'', ''__lookupSetter__'', ''isPrototypeOf'', ''propertyIsEnumerable'',
      ''toString'', ''valueOf'', ''__proto__'', ''toLocaleString'']"

datatype 'v lookup = Own 'v | Inherited | Undefined

definition js_get :: "'v js_object \<Rightarrow> string \<Rightarrow> 'v lookup" where
  "js_get obj k =
     (case map_of obj k of
        Some v \<Rightarrow> Own v
      | None \<Rightarrow> if k \<in> set object_prototype_names then Inherited else Undefined)"

text \<open>
  An exception of the source is a value of the model. \<open>TypeError\<close> is what the engine
  raises on a member access on \<^verbatim>\<open>undefined\<close> or a call of a non-function. Nothing in the
  file catches it, so it ends the function that raised it.
  \<open>Unmodelled\<close> marks the one read where the source would carry on with a built-in member
  of \<^verbatim>\<open>Object.prototype\<close> as a version; lemma \<open>planner_never_unmodelled\<close> below shows that it is
  never reached.
\<close>

datatype error = TypeError | Unmodelled

fun fold_err :: "('a \<Rightarrow> 's \<Rightarrow> error + 's) \<Rightarrow> 'a list \<Rightarrow> 's \<Rightarrow> error + 's" where
  "fold_err f [] s = Inr s"
| "fold_err f (x # xs) s = (case f x s of Inl e \<Rightarrow> Inl e | Inr s' \<Rightarrow> fold_err f xs s')"

fun map_err :: "('a \<Rightarrow> error + 'b) \<Rightarrow> 'a list \<Rightarrow> error + 'b list" where
  "map_err f [] = Inr []"
| "map_err f (x # xs) =
     (case f x of
        Inl e \<Rightarrow> Inl e
      | Inr y \<Rightarrow> (case map_err f xs of Inl e \<Rightarrow> Inl e | Inr ys \<Rightarrow> Inr (y # ys)))"

section \<open>Packages, the command object and its collaborators\<close>

record package =
  pkg_name :: string
  pkg_version :: string
  pkg_location :: string
  pkg_nodeModulesLocation :: string
  pkg_allDependencies :: "string js_object"

text \<open>\<^verbatim>\<open>{ name, version }\<close>: a repo-local package or a normalised external dependency.\<close>

record dep =
  dep_name :: string
  dep_version :: string

text \<open>
  The functions the command calls in other modules (\<^verbatim>\<open>semver\<close>, \<^verbatim>\<open>PackageUtilities\<close>,
  \<^verbatim>\<open>Package\<close>, \<^verbatim>\<open>Repository\<close>) are parameters of the model; the two that schedule the
  lifecycle scripts are modelled in the section on those scripts.
\<close>

record externals =
  satisfies :: "string \<Rightarrow> string \<Rightarrow> bool"
  isHoistedPackage :: "string \<Rightarrow> string option \<Rightarrow> string option \<Rightarrow> bool"
  hasMatchingDependency :: "package \<Rightarrow> dep \<Rightarrow> bool"
  hasDependencyInstalled :: "package \<Rightarrow> string \<Rightarrow> bool"
  repositoryHasDependencyInstalled :: "string \<Rightarrow> string \<Rightarrow> bool"

text \<open>
  The fields of \<^verbatim>\<open>this\<close> that the command reads. \<open>packageGraph C n\<close> is
  \<^verbatim>\<open>this.packageGraph.get(n)\<close> followed by \<^verbatim>\<open>.package\<close>, with \<open>None\<close> for a name the graph does
  not have. An option that was not given is \<open>None\<close>.
\<close>

record command =
  packages :: "package list"
  filteredPackages :: "package list"
  packageGraph :: "string \<Rightarrow> package option"
  opt_hoist :: "string option"
  opt_nohoist :: "string option"
  rootAllDependencies :: "string js_object"
  rootPath :: string
  rootNodeModulesLocation :: string
  toposort :: bool

text \<open>Truthiness of a string that may be absent: \<^verbatim>\<open>undefined\<close> and \<^verbatim>\<open>""\<close> are falsy.\<close>

definition truthy :: "string option \<Rightarrow> bool" where
  "truthy v = (case v of None \<Rightarrow> False | Some s \<Rightarrow> s \<noteq> [])"

section \<open>getDependenciesToInstall\<close>

definition findPackage :: "externals \<Rightarrow> command \<Rightarrow> string \<Rightarrow> string option \<Rightarrow> package option" where
  "findPackage X C name version =
     List.find (\<lambda>pkg. pkg_name pkg = name \<and>
        (\<not> truthy version \<or> (case version of Some v \<Rightarrow> satisfies X (pkg_version pkg) v | None \<Rightarrow> False)))
       (packages C)"

definition hasPackage :: "externals \<Rightarrow> command \<Rightarrow> string \<Rightarrow> string option \<Rightarrow> bool" where
  "hasPackage X C name version = (findPackage X C name version \<noteq> None)"

record dep_info =
  versions :: "nat js_object"
  dependents :: "string list js_object"

record root_install =
  ri_name :: string
  ri_dependents :: "package list"
  ri_dependency :: string
  ri_isSatisfied :: bool

record leaf_install =
  li_dependency :: string
  li_isSatisfied :: bool

text \<open>
  A call of \<^verbatim>\<open>tracker.warn\<close>: the code and the values its message interpolates
  (root: name, root version, common version; package: requester, name, version, root
  version).
\<close>

datatype warning =
  EHOIST_ROOT_VERSION string string string
| EHOIST_PKG_VERSION string string string string

record planning =
  root :: "root_install list"
  leaves :: "leaf_install list js_object"
  warnings :: "warning list"

text \<open>Lines 277--283: the root manifest seeds one entry per dependency, with count 0.\<close>

definition seedRoot :: "string js_object \<Rightarrow> dep_info js_object" where
  "seedRoot deps =
     foldl (\<lambda>depsToInstall kv.
              AList.update (fst kv)
                \<lparr>versions = [(snd kv, 0)], dependents = [(snd kv, [])]\<rparr> depsToInstall)
       [] (object_entries deps)"

text \<open>Lines 292--295: a dependency becomes the repo-local package that matches it, if any.\<close>

definition normalizeDependency :: "externals \<Rightarrow> command \<Rightarrow> string \<times> string \<Rightarrow> dep" where
  "normalizeDependency X C kv =
     (case findPackage X C (fst kv) (Some (snd kv)) of
        Some p \<Rightarrow> \<lparr>dep_name = pkg_name p, dep_version = pkg_version p\<rparr>
      | None \<Rightarrow> \<lparr>dep_name = fst kv, dep_version = snd kv\<rparr>)"

text \<open>Line 298: the filter that keeps what has to be installed.\<close>

definition needsInstall :: "externals \<Rightarrow> command \<Rightarrow> package \<Rightarrow> dep \<Rightarrow> bool" where
  "needsInstall X C pkg d =
     (\<not> hasPackage X C (dep_name d) (Some (dep_version d)) \<or> \<not> hasMatchingDependency X pkg d)"

definition externalDependencies :: "externals \<Rightarrow> command \<Rightarrow> package \<Rightarrow> dep list" where
  "externalDependencies X C pkg =
     filter (needsInstall X C pkg)
       (map (normalizeDependency X C) (object_entries (pkg_allDependencies pkg)))"

text \<open>
  Lines 307--315, on one entry \<^verbatim>\<open>dep\<close>. A version that names a member of
  \<^verbatim>\<open>Object.prototype\<close> passes the test of line 308 (the member is truthy), so
  \<^verbatim>\<open>dep.dependents[version]\<close> is never created and \<^verbatim>\<open>.push\<close> on it raises.
\<close>

definition recordVersion :: "string \<Rightarrow> string \<Rightarrow> dep_info \<Rightarrow> error + dep_info" where
  "recordVersion pkgName version d =
     (let seen = js_get (versions d) version;
          d1 = (if seen = Undefined \<or> seen = Own 0
                then \<lparr>versions = AList.update version 0 (versions d),
                      dependents = AList.update version [] (dependents d)\<rparr>
                else d);
          n = (case map_of (versions d1) version of Some c \<Rightarrow> c | None \<Rightarrow> 0)
      in if seen = Inherited then Inl TypeError
         else case js_get (dependents d1) version of
                Own ps \<Rightarrow>
                  Inr \<lparr>versions = AList.update version (Suc n) (versions d1),
                       dependents = AList.update version (ps @ [pkgName]) (dependents d1)\<rparr>
              | Inherited \<Rightarrow> Inl TypeError
              | Undefined \<Rightarrow> Inl TypeError)"

text \<open>
  Lines 300--316. A name that is not yet a key and names a member of
  \<^verbatim>\<open>Object.prototype\<close> yields that member, whose \<^verbatim>\<open>versions\<close> is \<^verbatim>\<open>undefined\<close>.
\<close>

definition addDependency :: "string \<Rightarrow> dep \<Rightarrow> dep_info js_object \<Rightarrow> error + dep_info js_object" where
  "addDependency pkgName d depsToInstall =
     (case js_get depsToInstall (dep_name d) of
        Inherited \<Rightarrow> Inl TypeError
      | Own info \<Rightarrow>
          (case recordVersion pkgName (dep_version d) info of
             Inl e \<Rightarrow> Inl e
           | Inr info' \<Rightarrow> Inr (AList.update (dep_name d) info' depsToInstall))
      | Undefined \<Rightarrow>
          (case recordVersion pkgName (dep_version d) \<lparr>versions = [], dependents = []\<rparr> of
             Inl e \<Rightarrow> Inl e
           | Inr info' \<Rightarrow> Inr (AList.update (dep_name d) info' depsToInstall)))"

definition collectDependencies :: "externals \<Rightarrow> command \<Rightarrow> error + dep_info js_object" where
  "collectDependencies X C =
     fold_err (\<lambda>pkg. fold_err (addDependency (pkg_name pkg)) (externalDependencies X C pkg))
       (filteredPackages C) (seedRoot (rootAllDependencies C))"

text \<open>
  Lines 327--328: \<^verbatim>\<open>reduce\<close> without an initial value raises on an empty array;
  \<^verbatim>\<open>versions[a] > versions[b]\<close> is false when either side is \<^verbatim>\<open>undefined\<close>.
\<close>

definition moreCommon :: "nat js_object \<Rightarrow> string \<Rightarrow> string \<Rightarrow> string" where
  "moreCommon vs a b =
     (case (map_of vs a, map_of vs b) of
        (Some m, Some n) \<Rightarrow> if m > n then a else b
      | _ \<Rightarrow> b)"

definition commonVersion :: "nat js_object \<Rightarrow> error + string" where
  "commonVersion vs =
     (case object_keys vs of
        [] \<Rightarrow> Inl TypeError
      | k # ks \<Rightarrow> Inr (foldl (moreCommon vs) k ks))"

definition spec_string :: "string \<Rightarrow> string \<Rightarrow> string" where
  "spec_string name version = name @ ''@'' @ version"

text \<open>Line 333: the root's own range if it has a truthy one, else the common version.\<close>

definition rootVersionFor :: "command \<Rightarrow> string \<Rightarrow> string \<Rightarrow> error + string" where
  "rootVersionFor C name common =
     (case js_get (rootAllDependencies C) name of
        Own v \<Rightarrow> Inr (if v \<noteq> [] then v else common)
      | Undefined \<Rightarrow> Inr common
      | Inherited \<Rightarrow> Inl Unmodelled)"

text \<open>Lines 348--349: the requesters of the root version, looked up in the graph.\<close>

definition graphPackage :: "command \<Rightarrow> string \<Rightarrow> error + package" where
  "graphPackage C dep = (case packageGraph C dep of None \<Rightarrow> Inl TypeError | Some p \<Rightarrow> Inr p)"

definition rootDependents :: "command \<Rightarrow> dep_info \<Rightarrow> string \<Rightarrow> error + package list" where
  "rootDependents C info rootVersion =
     (case js_get (dependents info) rootVersion of
        Own ps \<Rightarrow> map_err (graphPackage C) ps
      | Undefined \<Rightarrow> Inr []
      | Inherited \<Rightarrow> Inl TypeError)"

text \<open>
  Lines 325--353: the root install of a hoisted name; \<open>isHoisted\<close> is the test of line
  325. The result carries \<^verbatim>\<open>rootVersion\<close>,
  which stays \<^verbatim>\<open>undefined\<close> (\<open>None\<close>) for a name that is not hoisted.
\<close>

definition isHoisted :: "externals \<Rightarrow> command \<Rightarrow> string \<Rightarrow> bool" where
  "isHoisted X C name =
     (truthy (opt_hoist C) \<and> isHoistedPackage X name (opt_hoist C) (opt_nohoist C))"

definition hoistDependency ::
  "externals \<Rightarrow> command \<Rightarrow> string \<Rightarrow> dep_info \<Rightarrow> planning \<Rightarrow> error + (string option \<times> planning)" where
  "hoistDependency X C name info st =
     (if isHoisted X C name
      then
        (case commonVersion (versions info) of
           Inl e \<Rightarrow> Inl e
         | Inr common \<Rightarrow>
            (case rootVersionFor C name common of
               Inl e \<Rightarrow> Inl e
             | Inr rootVersion \<Rightarrow>
                (case rootDependents C info rootVersion of
                   Inl e \<Rightarrow> Inl e
                 | Inr deps \<Rightarrow>
                     Inr (Some rootVersion,
                          st\<lparr>root := root st @
                                [\<lparr>ri_name = name, ri_dependents = deps,
                                  ri_dependency = spec_string name rootVersion,
                                  ri_isSatisfied =
                                    repositoryHasDependencyInstalled X name rootVersion\<rparr>],
                             warnings := warnings st @
                                (if rootVersion \<noteq> common
                                 then [EHOIST_ROOT_VERSION name rootVersion common]
                                 else [])\<rparr>))))
      else Inr (None, st))"

text \<open>Lines 360--374, for one requester of one version.\<close>

definition ownOrEmpty :: "'a list lookup \<Rightarrow> error + 'a list" where
  "ownOrEmpty found =
     (case found of Own xs \<Rightarrow> Inr xs | Undefined \<Rightarrow> Inr [] | Inherited \<Rightarrow> Inl TypeError)"

definition addLeaf ::
  "externals \<Rightarrow> command \<Rightarrow> string \<Rightarrow> string \<Rightarrow> string option \<Rightarrow> string \<Rightarrow> planning
     \<Rightarrow> error + planning" where
  "addLeaf X C name version rootVersion pkg st =
     (case ownOrEmpty (js_get (leaves st) pkg) of
        Inl e \<Rightarrow> Inl e
      | Inr ls \<Rightarrow>
         (case findPackage X C pkg None of
            None \<Rightarrow> Inl TypeError
          | Some p \<Rightarrow>
              Inr (st\<lparr>leaves := AList.update pkg
                         (ls @ [\<lparr>li_dependency = spec_string name version,
                                  li_isSatisfied = hasDependencyInstalled X p name\<rparr>])
                         (leaves st),
                      warnings := warnings st @
                         (case rootVersion of
                            Some r \<Rightarrow> if r \<noteq> [] then [EHOIST_PKG_VERSION pkg name version r]
                                      else []
                          | None \<Rightarrow> [])\<rparr>)))"

text \<open>Lines 356--375, for one version of the name.\<close>

definition addLeaves ::
  "externals \<Rightarrow> command \<Rightarrow> string \<Rightarrow> dep_info \<Rightarrow> string option \<Rightarrow> string \<Rightarrow> planning
     \<Rightarrow> error + planning" where
  "addLeaves X C name info rootVersion version st =
     (if Some version = rootVersion then Inr st
      else case map_of (dependents info) version of
             None \<Rightarrow> Inl TypeError
           | Some ps \<Rightarrow> fold_err (addLeaf X C name version rootVersion) ps st)"

text \<open>Lines 320--376, for one name.\<close>

definition placeDependency ::
  "externals \<Rightarrow> command \<Rightarrow> string \<times> dep_info \<Rightarrow> planning \<Rightarrow> error + planning" where
  "placeDependency X C entry st =
     (case hoistDependency X C (fst entry) (snd entry) st of
        Inl e \<Rightarrow> Inl e
      | Inr (rootVersion, st') \<Rightarrow>
          fold_err (addLeaves X C (fst entry) (snd entry) rootVersion)
            (object_keys (versions (snd entry))) st')"

definition getDependenciesToInstall :: "externals \<Rightarrow> command \<Rightarrow> error + planning" where
  "getDependenciesToInstall X C =
     (case collectDependencies X C of
        Inl e \<Rightarrow> Inl e
      | Inr depsToInstall \<Rightarrow>
          fold_err (placeDependency X C) (object_entries depsToInstall)
            \<lparr>root = [], leaves = [], warnings = []\<rparr>)"

section \<open>installExternalDependencies\<close>

text \<open>
  The actions the method queues, each described by the call it makes when it runs:
  \<^verbatim>\<open>NpmUtilities.installInDir(rootPath, specs, npmConfig, cb)\<close> followed by the binary links
  of the root installs; the removal of the candidate directories (each a
  \<^verbatim>\<open>path.join\<close> of a dependent's module directory and a hoisted name); and
  \<^verbatim>\<open>NpmUtilities.installInDir(pkg.location, specs, npmConfig, npmGlobalStyle, cb)\<close>.
\<close>

datatype action =
  RootInstall string "string list" "root_install list"
| Prune "(string \<times> string) list"
| LeafInstall package string "string list" "string option"

definition depsToInstallInRoot :: "root_install list \<Rightarrow> string list" where
  "depsToInstallInRoot rs =
     (if list_ex (\<lambda>r. \<not> ri_isSatisfied r) rs then map ri_dependency rs else [])"

definition pruneCandidates :: "command \<Rightarrow> root_install list \<Rightarrow> (string \<times> string) list" where
  "pruneCandidates C rs =
     concat (map (\<lambda>r. map (\<lambda>pkg. (pkg_nodeModulesLocation pkg, ri_name r))
                        (filter (\<lambda>pkg. pkg_nodeModulesLocation pkg \<noteq> rootNodeModulesLocation C)
                           (ri_dependents r)))
               (filter (\<lambda>r. ri_dependents r \<noteq> []) rs))"

definition rootActions :: "command \<Rightarrow> root_install list \<Rightarrow> action list" where
  "rootActions C rs =
     (if rs \<noteq> []
      then [RootInstall (rootPath C) (depsToInstallInRoot rs) rs, Prune (pruneCandidates C rs)]
      else [])"

definition leafActions :: "command \<Rightarrow> leaf_install list js_object \<Rightarrow> error + action list" where
  "leafActions C ls =
     (case map_err (\<lambda>kv. case graphPackage C (fst kv) of
                           Inl e \<Rightarrow> Inl e
                         | Inr p \<Rightarrow> Inr (p, snd kv))
             (object_entries ls) of
        Inl e \<Rightarrow> Inl e
      | Inr pds \<Rightarrow>
          Inr (map (\<lambda>pd. LeafInstall (fst pd) (pkg_location (fst pd))
                           (map li_dependency (snd pd)) (opt_hoist C))
                 (filter (\<lambda>pd. list_ex (\<lambda>l. \<not> li_isSatisfied l) (snd pd)) pds)))"

definition installExternalDependencies :: "externals \<Rightarrow> command \<Rightarrow> error + action list" where
  "installExternalDependencies X C =
     (case getDependenciesToInstall X C of
        Inl e \<Rightarrow> Inl e
      | Inr plan \<Rightarrow>
          (case leafActions C (leaves plan) of
             Inl e \<Rightarrow> Inl e
           | Inr las \<Rightarrow> Inr (rootActions C (root plan) @ las)))"

section \<open>What the aggregate holds\<close>

text \<open>
  Notions used to state the properties below; none of them is part of the program.
  \<open>depsOf info v\<close> is the list \<^verbatim>\<open>dependents[v]\<close> of one entry (empty when there is none),
  \<open>requesters deps n v\<close> the same through \<^verbatim>\<open>depsToInstall[n]\<close>. An entry is consistent
  when its two objects have the same keys and each count is the length of the list of
  dependents.
\<close>

definition depsOf :: "dep_info \<Rightarrow> string \<Rightarrow> string list" where
  "depsOf info v = (case map_of (dependents info) v of None \<Rightarrow> [] | Some ps \<Rightarrow> ps)"

definition requesters :: "dep_info js_object \<Rightarrow> string \<Rightarrow> string \<Rightarrow> string list" where
  "requesters deps n v = (case map_of deps n of None \<Rightarrow> [] | Some info \<Rightarrow> depsOf info v)"

definition info_ok :: "dep_info \<Rightarrow> bool" where
  "info_ok info =
     (distinct (map fst (versions info)) \<and> versions info \<noteq> []
      \<and> (\<forall>v. map_of (versions info) v = map_option length (map_of (dependents info) v)))"

definition agg_ok :: "dep_info js_object \<Rightarrow> bool" where
  "agg_ok deps =
     (distinct (map fst deps) \<and> (\<forall>n info. map_of deps n = Some info \<longrightarrow> info_ok info))"

text \<open>
  The requests the filtered packages make for version \<open>v\<close> of name \<open>n\<close>, in the order
  the source visits them: one package name per dependency that passes line 298.
\<close>

definition requestsOf :: "externals \<Rightarrow> command \<Rightarrow> string \<Rightarrow> string \<Rightarrow> string list" where
  "requestsOf X C n v =
     concat (map (\<lambda>pkg. concat (map (\<lambda>d. if dep_name d = n \<and> dep_version d = v
                                           then [pkg_name pkg] else [])
                                   (externalDependencies X C pkg)))
               (filteredPackages C))"

text \<open>
  The order in which the spec breaks ties: strings compared character by character on
  their codes.
\<close>

definition string_less :: "string \<Rightarrow> string \<Rightarrow> bool" where
  "string_less a b = ((a, b) \<in> lexord {(c, d). (of_char c :: nat) < of_char d})"

text \<open>
  The words of the spec for the dependencies that are left to the sibling-symlink phase: a
  repo-local package of that name matches the range (the test of \<^verbatim>\<open>findPackage\<close>) and the
  requester has it in place (\<^verbatim>\<open>hasMatchingDependency\<close>).
\<close>

definition skipped :: "externals \<Rightarrow> command \<Rightarrow> package \<Rightarrow> string \<Rightarrow> string \<Rightarrow> bool" where
  "skipped X C pkg name rng =
     (case findPackage X C name (Some rng) of
        None \<Rightarrow> False
      | Some p \<Rightarrow> hasMatchingDependency X pkg \<lparr>dep_name = pkg_name p, dep_version = pkg_version p\<rparr>)"

section \<open>What the plan holds\<close>

text \<open>
  Notions used to state what the second loop (lines 320--376) adds for one entry of the
  aggregate: the common version and the root version of a name, the warnings and the
  leaf specs of one requester, of one version and of one name. \<open>leafSpecs st p\<close> reads the
  specs of \<^verbatim>\<open>leaves[p]\<close>.
\<close>

definition commonOf :: "dep_info \<Rightarrow> string" where
  "commonOf info = (case commonVersion (versions info) of Inr c \<Rightarrow> c | Inl e \<Rightarrow> [])"

definition rootVersionOf :: "externals \<Rightarrow> command \<Rightarrow> string \<Rightarrow> dep_info \<Rightarrow> string option" where
  "rootVersionOf X C n info =
     (if isHoisted X C n
      then (case rootVersionFor C n (commonOf info) of Inr r \<Rightarrow> Some r | Inl e \<Rightarrow> None)
      else None)"

definition leafSpecs :: "planning \<Rightarrow> string \<Rightarrow> string list" where
  "leafSpecs st p = map li_dependency (case map_of (leaves st) p of None \<Rightarrow> [] | Some ls \<Rightarrow> ls)"

definition rootWarning :: "string \<Rightarrow> dep_info \<Rightarrow> string option \<Rightarrow> warning list" where
  "rootWarning n info rv =
     (case rv of
        None \<Rightarrow> []
      | Some r \<Rightarrow> if r \<noteq> commonOf info then [EHOIST_ROOT_VERSION n r (commonOf info)] else [])"

definition pkgWarning :: "string \<Rightarrow> string \<Rightarrow> string option \<Rightarrow> string \<Rightarrow> warning list" where
  "pkgWarning n v rv q =
     (case rv of
        None \<Rightarrow> []
      | Some r \<Rightarrow> if r \<noteq> [] then [EHOIST_PKG_VERSION q n v r] else [])"

definition versionWarnings :: "string \<Rightarrow> dep_info \<Rightarrow> string option \<Rightarrow> string \<Rightarrow> warning list" where
  "versionWarnings n info rv v =
     (if Some v = rv then [] else concat (map (pkgWarning n v rv) (depsOf info v)))"

definition versionLeaves :: "string \<Rightarrow> dep_info \<Rightarrow> string option \<Rightarrow> string \<Rightarrow> string \<Rightarrow> string list" where
  "versionLeaves n info rv p v =
     (if Some v = rv then []
      else concat (map (\<lambda>q. if p = q then [spec_string n v] else []) (depsOf info v)))"

definition entryWarnings :: "externals \<Rightarrow> command \<Rightarrow> string \<times> dep_info \<Rightarrow> warning list" where
  "entryWarnings X C e =
     rootWarning (fst e) (snd e) (rootVersionOf X C (fst e) (snd e))
     @ concat (map (versionWarnings (fst e) (snd e) (rootVersionOf X C (fst e) (snd e)))
                 (object_keys (versions (snd e))))"

definition entryLeaves :: "externals \<Rightarrow> command \<Rightarrow> string \<Rightarrow> string \<times> dep_info \<Rightarrow> string list" where
  "entryLeaves X C p e =
     concat (map (versionLeaves (fst e) (snd e) (rootVersionOf X C (fst e) (snd e)) p)
               (object_keys (versions (snd e))))"

definition entryRoots :: "externals \<Rightarrow> command \<Rightarrow> string \<times> dep_info \<Rightarrow> string list" where
  "entryRoots X C e = (if isHoisted X C (fst e) then [fst e] else [])"

text \<open>
  A spec is \<^verbatim>\<open>name@range\<close>. The name can be read back from it when names have the shape of
  package names: not empty, and no \<^verbatim>\<open>@\<close> except as the first character (of a scope).
\<close>

definition npm_name :: "string \<Rightarrow> bool" where
  "npm_name s = (s \<noteq> [] \<and> CHR ''@'' \<notin> set (tl s))"

section \<open>Lifecycle scripts\<close>

text \<open>
  Modelled from the spec: \<^verbatim>\<open>PackageUtilities.topologicallyBatchPackages\<close>, which is not in the
  source file. The spec has the package graph batch its packages in the style of Kahn
  (section 4.2): a batch is a maximal set of packages with no dependency edge among them,
  a later batch depends only on earlier ones, and a cycle is a fatal error. An edge goes from
  a package to the package that the graph's lookup by name and range finds for one of its
  declared dependencies: the package of that name, if the range is absent (empty) or
  satisfied by its version.
\<close>

datatype cycle = DependencyCycle

definition dependsOn :: "externals \<Rightarrow> package \<Rightarrow> package \<Rightarrow> bool" where
  "dependsOn X A B =
     (case map_of (pkg_allDependencies A) (pkg_name B) of
        None \<Rightarrow> False
      | Some rng \<Rightarrow> \<not> truthy (Some rng) \<or> satisfies X (pkg_version B) rng)"

text \<open>The packages that depend on none of the packages still to be batched.\<close>

definition ready :: "externals \<Rightarrow> package list \<Rightarrow> package list" where
  "ready X ps = filter (\<lambda>A. \<not> list_ex (dependsOn X A) ps) ps"

function topologicallyBatchPackages :: "externals \<Rightarrow> package list \<Rightarrow> cycle + package list list" where
  "topologicallyBatchPackages X ps =
     (if ps = [] then Inr []
      else if ready X ps = [] then Inl DependencyCycle
      else case topologicallyBatchPackages X (filter (\<lambda>p. p \<notin> set (ready X ps)) ps) of
             Inl e \<Rightarrow> Inl e
           | Inr bs \<Rightarrow> Inr (ready X ps # bs))"
  by pat_completeness auto

termination
proof (relation "measure (\<lambda>(X, ps). length ps)")
  show "wf (measure (\<lambda>(X, ps). length ps))" by simp
next
  fix X :: externals and ps :: "package list"
  assume "ps \<noteq> []" and r: "ready X ps \<noteq> []"
  then obtain p where p: "p \<in> set (ready X ps)" by (cases "ready X ps") auto
  then have "p \<in> set ps" by (simp add: ready_def)
  with p have "length (filter (\<lambda>p. p \<notin> set (ready X ps)) ps) < length ps"
    by (intro length_filter_less [of p]) auto
  then show "((X, filter (\<lambda>p. p \<notin> set (ready X ps)) ps), (X, ps)) \<in> measure (\<lambda>(X, ps). length ps)"
    by simp
qed

declare topologicallyBatchPackages.simps [simp del]

text \<open>
  Lines 64--66, in \<^verbatim>\<open>initialize\<close>: the batches are the topological layers, or one batch of
  everything when \<^verbatim>\<open>this.toposort\<close> is false.
\<close>

definition batchedPackages :: "externals \<Rightarrow> command \<Rightarrow> cycle + package list list" where
  "batchedPackages X C =
     (if toposort C then topologicallyBatchPackages X (filteredPackages C)
      else Inr [filteredPackages C])"

text \<open>
  What can be observed of a lifecycle phase: a package's script starts, and it finishes
  or fails.
\<close>

datatype event = ScriptStart string | ScriptFinish string | ScriptFail string

text \<open>
  Modelled from the spec: \<^verbatim>\<open>PackageUtilities.runParallelBatches\<close>, which is not in the
  source file. The spec has the scripts of one batch run in parallel, at most
  \<^verbatim>\<open>concurrency\<close> at a time, in no particular order of start or completion; the next batch
  starts when every script of this one has completed; after a failure nothing new is
  started, and the scripts in flight are left to complete.
  \<open>batch_run c pending running tr ok\<close>: from the packages still to start and those
  running, the batch can go on with the events \<open>tr\<close>, and ends well (\<open>ok\<close>) or in failure.
\<close>

inductive drain :: "string list \<Rightarrow> event list \<Rightarrow> bool" where
  drain_done: "drain [] []"
| drain_finish: "p \<in> set running \<Longrightarrow> drain (remove1 p running) tr
     \<Longrightarrow> drain running (ScriptFinish p # tr)"
| drain_fail: "p \<in> set running \<Longrightarrow> drain (remove1 p running) tr
     \<Longrightarrow> drain running (ScriptFail p # tr)"

code_pred drain .

inductive batch_run :: "nat \<Rightarrow> string list \<Rightarrow> string list \<Rightarrow> event list \<Rightarrow> bool \<Rightarrow> bool"
  for c :: nat where
  batch_done: "batch_run c [] [] [] True"
| batch_start: "p \<in> set pending \<Longrightarrow> length running < c
     \<Longrightarrow> batch_run c (remove1 p pending) (p # running) tr ok
     \<Longrightarrow> batch_run c pending running (ScriptStart p # tr) ok"
| batch_finish: "p \<in> set running \<Longrightarrow> batch_run c pending (remove1 p running) tr ok
     \<Longrightarrow> batch_run c pending running (ScriptFinish p # tr) ok"
| batch_fail: "p \<in> set running \<Longrightarrow> drain (remove1 p running) tr
     \<Longrightarrow> batch_run c pending running (ScriptFail p # tr) False"

code_pred batch_run .

inductive runParallelBatches :: "nat \<Rightarrow> string list list \<Rightarrow> event list \<Rightarrow> bool \<Rightarrow> bool"
  for c :: nat where
  batches_done: "runParallelBatches c [] [] True"
| batches_next: "batch_run c b [] tr1 True \<Longrightarrow> runParallelBatches c bs tr2 ok
     \<Longrightarrow> runParallelBatches c (b # bs) (tr1 @ tr2) ok"
| batches_abort: "batch_run c b [] tr False \<Longrightarrow> runParallelBatches c (b # bs) tr False"

code_pred runParallelBatches .

text \<open>
  Lines 134--155, with \<^verbatim>\<open>this.concurrency\<close> as \<open>c\<close>: no package, no event; otherwise the
  batches run, each package by its name. When \<^verbatim>\<open>initialize\<close> failed on a cycle the command
  has stopped, and no script runs.
\<close>

definition runScriptInPackages :: "externals \<Rightarrow> command \<Rightarrow> nat \<Rightarrow> event list \<Rightarrow> bool \<Rightarrow> bool" where
  "runScriptInPackages X C c tr ok =
     (case batchedPackages X C of
        Inl e \<Rightarrow> False
      | Inr bs \<Rightarrow>
          (if filteredPackages C = [] then tr = [] \<and> ok
           else runParallelBatches c (map (map pkg_name) bs) tr ok))"

text \<open>
  The conditions under which the planner does not raise: every filtered package is among
  \<^verbatim>\<open>this.packages\<close> and in the graph, and no name or version in play names a member of
  \<^verbatim>\<open>Object.prototype\<close>.
\<close>

definition plain :: "string \<Rightarrow> bool" where
  "plain s = (s \<notin> set object_prototype_names)"

definition well_formed :: "externals \<Rightarrow> command \<Rightarrow> bool" where
  "well_formed X C =
     ((\<forall>p \<in> set (filteredPackages C).
          (\<exists>q \<in> set (packages C). pkg_name q = pkg_name p)
          \<and> packageGraph C (pkg_name p) \<noteq> None
          \<and> plain (pkg_name p)
          \<and> (\<forall>d \<in> set (externalDependencies X C p). plain (dep_name d) \<and> plain (dep_version d)))
      \<and> (\<forall>kv \<in> set (rootAllDependencies C). plain (snd kv)))"

section \<open>Example repositories\<close>

text \<open>
  Concrete inputs on which the model is run below. The collaborators of the examples:
  a version table for \<^verbatim>\<open>semver.satisfies\<close>, every name hoistable, nothing installed
  yet, no repo-local dependency in place.
\<close>

definition ex_externals :: externals where
  "ex_externals =
     \<lparr>satisfies = (\<lambda>v r. (v, r) \<in> set [(''1.2.3'', ''^1.0.0''), (''1.2.3'', ''1.2.3''),
                                         (''2.0.0'', ''2.0.0'')]),
      isHoistedPackage = (\<lambda>n h nh. True),
      hasMatchingDependency = (\<lambda>p d. False),
      hasDependencyInstalled = (\<lambda>p n. False),
      repositoryHasDependencyInstalled = (\<lambda>n v. False)\<rparr>"

definition mk_package :: "string \<Rightarrow> string \<Rightarrow> string js_object \<Rightarrow> package" where
  "mk_package n v ds =
     \<lparr>pkg_name = n, pkg_version = v, pkg_location = ''/repo/packages/'' @ n,
      pkg_nodeModulesLocation = ''/repo/packages/'' @ n @ ''/node_modules'',
      pkg_allDependencies = ds\<rparr>"

definition mk_command :: "package list \<Rightarrow> string option \<Rightarrow> string js_object \<Rightarrow> command" where
  "mk_command ps h rootDeps =
     \<lparr>packages = ps, filteredPackages = ps,
      packageGraph = map_of (map (\<lambda>p. (pkg_name p, p)) ps),
      opt_hoist = h, opt_nohoist = None, rootAllDependencies = rootDeps,
      rootPath = ''/repo'', rootNodeModulesLocation = ''/repo/node_modules'',
      toposort = True\<rparr>"

text \<open>
  Two packages that ask for \<^verbatim>\<open>left-pad\<close> at different ranges, hoisting on, no root
  requirement.
\<close>

definition ex_leftpad :: command where
  "ex_leftpad =
     mk_command
       [mk_package ''a'' ''1.0.0'' [(''left-pad'', ''^1.0.0'')],
        mk_package ''b'' ''1.0.0'' [(''left-pad'', ''^1.1.0'')]]
       (Some ''**'') []"

definition ex_leftpad_plan :: planning where
  "ex_leftpad_plan =
     \<lparr>root = [\<lparr>ri_name = ''left-pad'',
               ri_dependents = [mk_package ''b'' ''1.0.0'' [(''left-pad'', ''^1.1.0'')]],
               ri_dependency = ''left-pad@^1.1.0'', ri_isSatisfied = False\<rparr>],
      leaves = [(''a'', [\<lparr>li_dependency = ''left-pad@^1.0.0'', li_isSatisfied = False\<rparr>])],
      warnings = [EHOIST_PKG_VERSION ''a'' ''left-pad'' ''^1.0.0'' ''^1.1.0'']\<rparr>"

definition ex_leftpad_actions :: "action list" where
  "ex_leftpad_actions =
     [RootInstall ''/repo'' [''left-pad@^1.1.0''] (root ex_leftpad_plan),
      Prune [(''/repo/packages/b/node_modules'', ''left-pad'')],
      LeafInstall (mk_package ''a'' ''1.0.0'' [(''left-pad'', ''^1.0.0'')]) ''/repo/packages/a''
        [''left-pad@^1.0.0''] (Some ''**'')]"

definition ex_leftpad_deps :: "dep_info js_object" where
  "ex_leftpad_deps =
     [(''left-pad'', \<lparr>versions = [(''^1.0.0'', 1), (''^1.1.0'', 1)],
                      dependents = [(''^1.0.0'', [''a'']), (''^1.1.0'', [''b''])]\<rparr>)]"

text \<open>
  Package \<^verbatim>\<open>a\<close> depends on the repo-local package \<^verbatim>\<open>b\<close>, whose version matches the
  range; hoisting is off.
\<close>

definition ex_sibling_a :: package where
  "ex_sibling_a = mk_package ''a'' ''1.0.0'' [(''b'', ''^1.0.0'')]"

definition ex_sibling :: command where
  "ex_sibling = mk_command [ex_sibling_a, mk_package ''b'' ''1.2.3'' []] None []"

text \<open>
  \<^verbatim>\<open>Package.hasMatchingDependency\<close> is not in the source file. In lerna it compares
  versions: it answers no when the requester's own range for the name is missing or falsy,
  and otherwise whether the version it is given satisfies that range. The examples that
  turn on its answer use this collaborator.
\<close>

definition versionMatch :: "externals \<Rightarrow> package \<Rightarrow> dep \<Rightarrow> bool" where
  "versionMatch X p d =
     (case map_of (pkg_allDependencies p) (dep_name d) of
        None \<Rightarrow> False
      | Some expected \<Rightarrow> truthy (Some expected) \<and> satisfies X (dep_version d) expected)"

definition ex_version_externals :: externals where
  "ex_version_externals = ex_externals\<lparr>hasMatchingDependency := versionMatch ex_externals\<rparr>"

text \<open>
  Package \<^verbatim>\<open>a\<close> depends on the repo-local package \<^verbatim>\<open>b\<close> with the empty range (any version);
  hoisting is off.
\<close>

definition ex_any_version_a :: package where
  "ex_any_version_a = mk_package ''a'' ''1.0.0'' [(''b'', '''')]"

definition ex_any_version :: command where
  "ex_any_version = mk_command [ex_any_version_a, mk_package ''b'' ''1.2.3'' []] None []"

definition ex_any_version_deps :: "dep_info js_object" where
  "ex_any_version_deps =
     [(''b'', \<lparr>versions = [(''1.2.3'', 1)], dependents = [(''1.2.3'', [''a''])]\<rparr>)]"

definition ex_any_version_plan :: planning where
  "ex_any_version_plan =
     \<lparr>root = [],
      leaves = [(''a'', [\<lparr>li_dependency = ''b@1.2.3'', li_isSatisfied = False\<rparr>])],
      warnings = []\<rparr>"

text \<open>
  Package \<^verbatim>\<open>a\<close> depends on \<^verbatim>\<open>b@^1.0.0\<close> while the repo-local \<^verbatim>\<open>b\<close> is at \<^verbatim>\<open>2.0.0\<close>; the root
  manifest depends on \<^verbatim>\<open>lodash\<close>, which no package asks for; hoisting is off.
\<close>

definition ex_mismatch_a :: package where
  "ex_mismatch_a = mk_package ''a'' ''1.0.0'' [(''b'', ''^1.0.0'')]"

definition ex_mismatch :: command where
  "ex_mismatch =
     mk_command [ex_mismatch_a, mk_package ''b'' ''2.0.0'' []] None [(''lodash'', ''^4.0.0'')]"

definition ex_mismatch_deps :: "dep_info js_object" where
  "ex_mismatch_deps =
     [(''lodash'', \<lparr>versions = [(''^4.0.0'', 0)], dependents = [(''^4.0.0'', [])]\<rparr>),
      (''b'', \<lparr>versions = [(''^1.0.0'', 1)], dependents = [(''^1.0.0'', [''a''])]\<rparr>)]"

definition ex_mismatch_plan :: planning where
  "ex_mismatch_plan =
     \<lparr>root = [],
      leaves = [(''a'', [\<lparr>li_dependency = ''b@^1.0.0'', li_isSatisfied = False\<rparr>])],
      warnings = []\<rparr>"

text \<open>The same repository with hoisting on.\<close>

definition ex_mismatch_hoisted :: command where
  "ex_mismatch_hoisted = ex_mismatch\<lparr>opt_hoist := Some ''**''\<rparr>"

text \<open>
  Package \<^verbatim>\<open>a\<close> asks for \<^verbatim>\<open>left-pad@^1.0.0\<close> and package \<^verbatim>\<open>b\<close> for \<^verbatim>\<open>left-pad\<close> with the empty
  range (any version); hoisting is on and the root manifest has no requirement.
\<close>

definition ex_empty_range :: command where
  "ex_empty_range =
     mk_command
       [mk_package ''a'' ''1.0.0'' [(''left-pad'', ''^1.0.0'')],
        mk_package ''b'' ''1.0.0'' [(''left-pad'', '''')]]
       (Some ''**'') []"

definition ex_empty_range_deps :: "dep_info js_object" where
  "ex_empty_range_deps =
     [(''left-pad'', \<lparr>versions = [(''^1.0.0'', 1), ('''', 1)],
                      dependents = [(''^1.0.0'', [''a'']), ('''', [''b''])]\<rparr>)]"

definition ex_empty_range_plan :: planning where
  "ex_empty_range_plan =
     \<lparr>root = [\<lparr>ri_name = ''left-pad'',
               ri_dependents = [mk_package ''b'' ''1.0.0'' [(''left-pad'', '''')]],
               ri_dependency = ''left-pad@'', ri_isSatisfied = False\<rparr>],
      leaves = [(''a'', [\<lparr>li_dependency = ''left-pad@^1.0.0'', li_isSatisfied = False\<rparr>])],
      warnings = []\<rparr>"

text \<open>
  The root manifest depends on \<^verbatim>\<open>react@^0.14.0\<close>, three packages on \<^verbatim>\<open>react@15.x\<close> and one
  on \<^verbatim>\<open>react@^0.14.0\<close>; hoisting is on.
\<close>

definition ex_react :: command where
  "ex_react =
     mk_command
       [mk_package ''c1'' ''1.0.0'' [(''react'', ''15.x'')],
        mk_package ''c2'' ''1.0.0'' [(''react'', ''15.x'')],
        mk_package ''c3'' ''1.0.0'' [(''react'', ''15.x'')],
        mk_package ''c4'' ''1.0.0'' [(''react'', ''^0.14.0'')]]
       (Some ''**'') [(''react'', ''^0.14.0'')]"

definition ex_react_info :: dep_info where
  "ex_react_info =
     \<lparr>versions = [(''^0.14.0'', 1), (''15.x'', 3)],
      dependents = [(''^0.14.0'', [''c4'']), (''15.x'', [''c1'', ''c2'', ''c3''])]\<rparr>"

definition ex_react_warnings :: "warning list" where
  "ex_react_warnings =
     [EHOIST_ROOT_VERSION ''react'' ''^0.14.0'' ''15.x'',
      EHOIST_PKG_VERSION ''c1'' ''react'' ''15.x'' ''^0.14.0'',
      EHOIST_PKG_VERSION ''c2'' ''react'' ''15.x'' ''^0.14.0'',
      EHOIST_PKG_VERSION ''c3'' ''react'' ''15.x'' ''^0.14.0'']"

text \<open>
  The root manifest depends on \<^verbatim>\<open>left-pad\<close> with the empty range and package \<^verbatim>\<open>a\<close> on
  \<^verbatim>\<open>left-pad@^1.0.0\<close>; hoisting is on.
\<close>

definition ex_empty_root :: command where
  "ex_empty_root =
     mk_command [mk_package ''a'' ''1.0.0'' [(''left-pad'', ''^1.0.0'')]]
       (Some ''**'') [(''left-pad'', '''')]"

definition ex_empty_root_info :: dep_info where
  "ex_empty_root_info =
     \<lparr>versions = [('''', 0), (''^1.0.0'', 1)],
      dependents = [('''', []), (''^1.0.0'', [''a''])]\<rparr>"

definition ex_empty_root_plan :: planning where
  "ex_empty_root_plan =
     \<lparr>root = [\<lparr>ri_name = ''left-pad'',
               ri_dependents = [mk_package ''a'' ''1.0.0'' [(''left-pad'', ''^1.0.0'')]],
               ri_dependency = ''left-pad@^1.0.0'', ri_isSatisfied = False\<rparr>],
      leaves = [],
      warnings = []\<rparr>"

text \<open>
  Package \<^verbatim>\<open>a\<close> depends on the repo-local package \<^verbatim>\<open>b\<close>, and sorting is off
  (\<^verbatim>\<open>this.toposort\<close> is false).
\<close>

definition ex_unsorted :: command where
  "ex_unsorted = ex_sibling\<lparr>toposort := False\<rparr>"

section \<open>Facts about objects and the error-passing loops\<close>

lemmas model_defs =
  getDependenciesToInstall_def collectDependencies_def
  seedRoot_def object_entries_def object_keys_def is_array_index_def is_digit_def decimal_value_def
  externalDependencies_def normalizeDependency_def needsInstall_def findPackage_def hasPackage_def
  truthy_def addDependency_def recordVersion_def
  js_get_def object_prototype_names_def placeDependency_def hoistDependency_def isHoisted_def
  commonVersion_def
  moreCommon_def addLeaves_def addLeaf_def spec_string_def rootVersionFor_def rootDependents_def
  graphPackage_def ownOrEmpty_def installExternalDependencies_def leafActions_def rootActions_def
  depsToInstallInRoot_def pruneCandidates_def

lemmas example_defs = ex_externals_def mk_package_def mk_command_def

lemma ex_leftpad_planned: "getDependenciesToInstall ex_externals ex_leftpad = Inr ex_leftpad_plan"
  by (simp add: model_defs example_defs ex_leftpad_def ex_leftpad_plan_def)

lemma ex_leftpad_installs:
  "installExternalDependencies ex_externals ex_leftpad = Inr ex_leftpad_actions"
  unfolding installExternalDependencies_def ex_leftpad_planned
  by (simp add: model_defs example_defs ex_leftpad_def ex_leftpad_plan_def ex_leftpad_actions_def)

lemma set_object_entries: "set (object_entries obj) = set obj"
  by (auto simp: object_entries_def)

lemma set_object_keys: "set (object_keys obj) = fst ` set obj"
  by (simp add: object_keys_def set_object_entries)

lemma distinct_object_entries:
  assumes "distinct (map fst obj)"
  shows "distinct (map fst (object_entries obj))"
proof -
  from assms have d: "distinct obj" and i: "inj_on fst (set obj)"
    by (simp_all add: distinct_map)
  have "distinct (object_entries obj)"
    using d by (auto simp: object_entries_def)
  moreover have "inj_on fst (set (object_entries obj))"
    using i by (simp add: set_object_entries)
  ultimately show ?thesis by (simp add: distinct_map)
qed

lemma map_of_object_entries:
  assumes "distinct (map fst obj)"
  shows "map_of (object_entries obj) = map_of obj"
proof (rule ext)
  fix k
  show "map_of (object_entries obj) k = map_of obj k"
  proof (cases "map_of obj k")
    case None
    then show ?thesis
      by (metis map_of_eq_None_iff set_map set_object_entries)
  next
    case (Some v)
    then have "(k, v) \<in> set (object_entries obj)"
      by (simp add: set_object_entries map_of_SomeD)
    then show ?thesis
      using Some distinct_object_entries [OF assms] by simp
  qed
qed

lemma fold_err_inv:
  assumes "fold_err f xs s = Inr s'" and "P s"
    and "\<And>x t t'. x \<in> set xs \<Longrightarrow> P t \<Longrightarrow> f x t = Inr t' \<Longrightarrow> P t'"
  shows "P s'"
  using assms
proof (induction xs arbitrary: s)
  case Nil
  then show ?case by simp
next
  case (Cons x xs)
  from Cons.prems(1) obtain t where t: "f x s = Inr t" and r: "fold_err f xs t = Inr s'"
    by (auto split: sum.splits)
  have "P t" using Cons.prems(3) [of x s t] Cons.prems(2) t by simp
  show ?case
  proof (rule Cons.IH [OF r \<open>P t\<close>])
    fix y u u' assume "y \<in> set xs" "P u" "f y u = Inr u'"
    then show "P u'" using Cons.prems(3) [of y u u'] by simp
  qed
qed

lemma fold_err_appends:
  assumes "fold_err f xs s = Inr s'"
    and "\<And>x t t'. x \<in> set xs \<Longrightarrow> f x t = Inr t' \<Longrightarrow> g t' = g t @ h x"
  shows "g s' = g s @ concat (map h xs)"
  using assms
proof (induction xs arbitrary: s)
  case Nil
  then show ?case by simp
next
  case (Cons x xs)
  from Cons.prems(1) obtain t where t: "f x s = Inr t" and r: "fold_err f xs t = Inr s'"
    by (auto split: sum.splits)
  have "g t = g s @ h x" using Cons.prems(2) [of x s t] t by simp
  moreover have "g s' = g t @ concat (map h xs)"
  proof (rule Cons.IH [OF r])
    fix y u u' assume "y \<in> set xs" "f y u = Inr u'"
    then show "g u' = g u @ h y" using Cons.prems(2) [of y u u'] by simp
  qed
  ultimately show ?case by simp
qed

lemma map_err_Inr:
  "map_err f xs = Inr ys \<Longrightarrow> list_all2 (\<lambda>x y. f x = Inr y) xs ys"
  by (induction xs arbitrary: ys) (auto split: sum.splits)

lemma map_err_total:
  "(\<And>x. x \<in> set xs \<Longrightarrow> \<exists>y. f x = Inr y) \<Longrightarrow> \<exists>ys. map_err f xs = Inr ys"
proof (induction xs)
  case Nil
  then show ?case by simp
next
  case (Cons x xs)
  then obtain y ys where "f x = Inr y" "map_err f xs = Inr ys" by (meson list.set_intros)
  then show ?case by simp
qed

lemma leafActions_Inr:
  assumes "leafActions C ls = Inr las"
  shows "\<exists>pds. list_all2 (\<lambda>kv pd. packageGraph C (fst kv) = Some (fst pd) \<and> snd pd = snd kv)
                 (object_entries ls) pds
           \<and> las = map (\<lambda>pd. LeafInstall (fst pd) (pkg_location (fst pd))
                           (map li_dependency (snd pd)) (opt_hoist C))
                 (filter (\<lambda>pd. list_ex (\<lambda>l. \<not> li_isSatisfied l) (snd pd)) pds)"
proof -
  from assms obtain pds where
    m: "map_err (\<lambda>kv. case graphPackage C (fst kv) of Inl e \<Rightarrow> Inl e | Inr p \<Rightarrow> Inr (p, snd kv))
          (object_entries ls) = Inr pds"
    and l: "las = map (\<lambda>pd. LeafInstall (fst pd) (pkg_location (fst pd))
                           (map li_dependency (snd pd)) (opt_hoist C))
                 (filter (\<lambda>pd. list_ex (\<lambda>l. \<not> li_isSatisfied l) (snd pd)) pds)"
    by (auto simp: leafActions_def split: sum.splits)
  have "list_all2 (\<lambda>kv pd. packageGraph C (fst kv) = Some (fst pd) \<and> snd pd = snd kv)
          (object_entries ls) pds"
    by (rule list_all2_mono [OF map_err_Inr [OF m]])
       (auto simp: graphPackage_def split: sum.splits option.splits)
  with l show ?thesis by blast
qed

section \<open>The root install action\<close>

text \<open>
  Claim C4. When the plan has root installs, the first action queued is the root install:
  it calls the installer in the root path, with the specs of all root installs if one of
  them is not satisfied and with the empty list if all are; no other action is a root
  install.
\<close>

theorem root_install_action:
  assumes "getDependenciesToInstall X C = Inr plan"
    and "installExternalDependencies X C = Inr acts"
    and "root plan \<noteq> []"
  shows "\<exists>rest. acts =
           RootInstall (rootPath C)
             (if (\<exists>r \<in> set (root plan). \<not> ri_isSatisfied r)
              then map ri_dependency (root plan) else [])
             (root plan) # rest
         \<and> (\<forall>a \<in> set rest. \<forall>dir specs rs. a \<noteq> RootInstall dir specs rs)"
proof -
  from assms(1,2) obtain las where las: "leafActions C (leaves plan) = Inr las"
    and acts: "acts = rootActions C (root plan) @ las"
    by (auto simp: installExternalDependencies_def split: sum.splits)
  from leafActions_Inr [OF las] have "\<forall>a \<in> set las. \<forall>dir specs rs. a \<noteq> RootInstall dir specs rs"
    by auto
  then show ?thesis
    using acts assms(3)
    by (auto simp: rootActions_def depsToInstallInRoot_def list_ex_iff)
qed

theorem root_install_action_witness:
  "getDependenciesToInstall ex_externals ex_leftpad = Inr ex_leftpad_plan
   \<and> installExternalDependencies ex_externals ex_leftpad = Inr ex_leftpad_actions
   \<and> root ex_leftpad_plan \<noteq> []
   \<and> (\<exists>rest. ex_leftpad_actions =
          RootInstall ''/repo'' [''left-pad@^1.1.0''] (root ex_leftpad_plan) # rest)"
proof -
  have nonempty: "root ex_leftpad_plan \<noteq> []"
    by (simp add: ex_leftpad_plan_def)
  from root_install_action [OF ex_leftpad_planned ex_leftpad_installs nonempty]
  show ?thesis
    using ex_leftpad_planned ex_leftpad_installs nonempty
    by (auto simp: ex_leftpad_plan_def ex_leftpad_def mk_command_def)
qed

lemma list_all2_right:
  "list_all2 P xs ys \<Longrightarrow> y \<in> set ys \<Longrightarrow> \<exists>x \<in> set xs. P x y"
  by (induction rule: list_all2_induct) auto

lemma list_all2_left:
  "list_all2 P xs ys \<Longrightarrow> x \<in> set xs \<Longrightarrow> \<exists>y \<in> set ys. P x y"
  by (induction rule: list_all2_induct) auto

lemma addLeaf_keys:
  "addLeaf X C name version rv pkg st = Inr st' \<Longrightarrow> distinct (map fst (leaves st))
     \<Longrightarrow> distinct (map fst (leaves st'))"
  by (auto simp: addLeaf_def distinct_update split: sum.splits option.splits)

lemma addLeaves_keys:
  assumes "addLeaves X C name info rv version st = Inr st'" and "distinct (map fst (leaves st))"
  shows "distinct (map fst (leaves st'))"
proof (cases "Some version = rv")
  case True
  with assms show ?thesis by (simp add: addLeaves_def)
next
  case False
  with assms(1) obtain ps where
    f: "fold_err (addLeaf X C name version rv) ps st = Inr st'"
    by (auto simp: addLeaves_def split: option.splits)
  show ?thesis
    by (rule fold_err_inv [OF f, where P = "\<lambda>t. distinct (map fst (leaves t))"])
       (auto intro: assms(2) addLeaf_keys)
qed

lemma hoistDependency_leaves:
  "hoistDependency X C name info st = Inr (rv, st') \<Longrightarrow> leaves st' = leaves st"
  by (auto simp: hoistDependency_def split: if_splits sum.splits)

lemma placeDependency_keys:
  assumes "placeDependency X C entry st = Inr st'" and "distinct (map fst (leaves st))"
  shows "distinct (map fst (leaves st'))"
proof -
  from assms(1) obtain rv st1 where
    h: "hoistDependency X C (fst entry) (snd entry) st = Inr (rv, st1)"
    and f: "fold_err (addLeaves X C (fst entry) (snd entry) rv)
              (object_keys (versions (snd entry))) st1 = Inr st'"
    by (auto simp: placeDependency_def split: sum.splits)
  have "distinct (map fst (leaves st1))"
    using hoistDependency_leaves [OF h] assms(2) by simp
  then show ?thesis
    by (rule fold_err_inv [OF f, where P = "\<lambda>t. distinct (map fst (leaves t))"])
       (auto intro: addLeaves_keys)
qed

lemma plan_leaves_distinct:
  assumes "getDependenciesToInstall X C = Inr plan"
  shows "distinct (map fst (leaves plan))"
proof -
  from assms obtain deps where
    f: "fold_err (placeDependency X C) (object_entries deps)
          \<lparr>root = [], leaves = [], warnings = []\<rparr> = Inr plan"
    by (auto simp: getDependenciesToInstall_def split: sum.splits)
  show ?thesis
    by (rule fold_err_inv [OF f, where P = "\<lambda>t. distinct (map fst (leaves t))"])
       (auto intro: placeDependency_keys)
qed

section \<open>The leaf install actions\<close>

text \<open>
  Claim C7. A leaf install action is queued for a requester exactly when one of its leaf
  installs is not satisfied. The action calls the installer in the requester's location
  with the specs of all leaf installs of that requester, and the flag it passes is the
  hoist option itself, so it is truthy exactly when hoisting is enabled. The requester of
  an action is the graph's package for a key of \<^verbatim>\<open>leaves\<close>; the graph is keyed by package
  name.
\<close>

theorem leaf_install_actions:
  assumes plan: "getDependenciesToInstall X C = Inr plan"
    and acts: "installExternalDependencies X C = Inr acts"
    and keyed: "\<forall>n p. packageGraph C n = Some p \<longrightarrow> pkg_name p = n"
  shows "((\<exists>p dir specs flag. LeafInstall p dir specs flag \<in> set acts \<and> pkg_name p = q)
            \<longleftrightarrow> (\<exists>ls. map_of (leaves plan) q = Some ls \<and> (\<exists>l \<in> set ls. \<not> li_isSatisfied l)))
       \<and> (\<forall>p dir specs flag. LeafInstall p dir specs flag \<in> set acts \<longrightarrow>
            (\<exists>ls. map_of (leaves plan) (pkg_name p) = Some ls
                \<and> packageGraph C (pkg_name p) = Some p
                \<and> dir = pkg_location p
                \<and> specs = map li_dependency ls
                \<and> flag = opt_hoist C
                \<and> (truthy flag \<longleftrightarrow> truthy (opt_hoist C))))"
proof -
  from plan acts obtain las where las: "leafActions C (leaves plan) = Inr las"
    and split: "acts = rootActions C (root plan) @ las"
    by (auto simp: installExternalDependencies_def split: sum.splits)
  from leafActions_Inr [OF las] obtain pds where
    rel: "list_all2 (\<lambda>kv pd. packageGraph C (fst kv) = Some (fst pd) \<and> snd pd = snd kv)
            (object_entries (leaves plan)) pds"
    and las_eq: "las = map (\<lambda>pd. LeafInstall (fst pd) (pkg_location (fst pd))
                           (map li_dependency (snd pd)) (opt_hoist C))
                 (filter (\<lambda>pd. list_ex (\<lambda>l. \<not> li_isSatisfied l) (snd pd)) pds)"
    by blast
  have d: "distinct (map fst (leaves plan))" by (rule plan_leaves_distinct [OF plan])
  have in_acts: "\<And>p dir specs flag.
      LeafInstall p dir specs flag \<in> set acts \<longleftrightarrow> LeafInstall p dir specs flag \<in> set las"
    by (auto simp: split rootActions_def)
  have content: "\<exists>ls. map_of (leaves plan) (pkg_name p) = Some ls
         \<and> packageGraph C (pkg_name p) = Some p \<and> dir = pkg_location p
         \<and> specs = map li_dependency ls \<and> flag = opt_hoist C
         \<and> (\<exists>l \<in> set ls. \<not> li_isSatisfied l)"
    if "LeafInstall p dir specs flag \<in> set las" for p dir specs flag
  proof -
    from that obtain pd where pd: "pd \<in> set pds" and
      un: "list_ex (\<lambda>l. \<not> li_isSatisfied l) (snd pd)" and
      eqs: "p = fst pd" "dir = pkg_location (fst pd)" "specs = map li_dependency (snd pd)"
           "flag = opt_hoist C"
      by (auto simp: las_eq)
    from list_all2_right [OF rel pd] obtain kv where
      kv: "kv \<in> set (object_entries (leaves plan))" and
      g: "packageGraph C (fst kv) = Some (fst pd)" and s: "snd pd = snd kv"
      by blast
    from kv have "(fst kv, snd kv) \<in> set (leaves plan)"
      by (simp add: set_object_entries)
    with d have m: "map_of (leaves plan) (fst kv) = Some (snd kv)" by simp
    from keyed g have "pkg_name (fst pd) = fst kv" by blast
    with m g s un eqs show ?thesis by (auto simp: list_ex_iff)
  qed
  have created: "\<exists>p dir specs flag. LeafInstall p dir specs flag \<in> set las \<and> pkg_name p = q"
    if m: "map_of (leaves plan) q = Some ls" and un: "\<exists>l \<in> set ls. \<not> li_isSatisfied l" for ls
  proof -
    from m have "(q, ls) \<in> set (object_entries (leaves plan))"
      by (simp add: set_object_entries map_of_SomeD)
    from list_all2_left [OF rel this] obtain pd where pd: "pd \<in> set pds"
      and g: "packageGraph C q = Some (fst pd)" and s: "snd pd = ls"
      by auto
    from keyed g have "pkg_name (fst pd) = q" by blast
    moreover have "LeafInstall (fst pd) (pkg_location (fst pd)) (map li_dependency (snd pd))
                     (opt_hoist C) \<in> set las"
      using pd un s by (auto simp: las_eq list_ex_iff)
    ultimately show ?thesis by blast
  qed
  show ?thesis
  proof (intro conjI allI impI iffI)
    assume "\<exists>p dir specs flag. LeafInstall p dir specs flag \<in> set acts \<and> pkg_name p = q"
    then obtain p dir specs flag where "LeafInstall p dir specs flag \<in> set las" "pkg_name p = q"
      by (auto simp: in_acts)
    with content [of p dir specs flag]
    show "\<exists>ls. map_of (leaves plan) q = Some ls \<and> (\<exists>l \<in> set ls. \<not> li_isSatisfied l)"
      by auto
  next
    assume "\<exists>ls. map_of (leaves plan) q = Some ls \<and> (\<exists>l \<in> set ls. \<not> li_isSatisfied l)"
    then show "\<exists>p dir specs flag. LeafInstall p dir specs flag \<in> set acts \<and> pkg_name p = q"
      using created unfolding in_acts by blast
  next
    fix p dir specs flag
    assume "LeafInstall p dir specs flag \<in> set acts"
    then have "LeafInstall p dir specs flag \<in> set las" by (simp add: in_acts)
    from content [OF this]
    show "\<exists>ls. map_of (leaves plan) (pkg_name p) = Some ls
                \<and> packageGraph C (pkg_name p) = Some p
                \<and> dir = pkg_location p
                \<and> specs = map li_dependency ls
                \<and> flag = opt_hoist C
                \<and> (truthy flag \<longleftrightarrow> truthy (opt_hoist C))"
      by auto
  qed
qed

theorem leaf_install_actions_witness:
  "getDependenciesToInstall ex_externals ex_leftpad = Inr ex_leftpad_plan
   \<and> installExternalDependencies ex_externals ex_leftpad = Inr ex_leftpad_actions
   \<and> packageGraph ex_leftpad ''a'' = Some (mk_package ''a'' ''1.0.0'' [(''left-pad'', ''^1.0.0'')])
   \<and> (\<exists>p dir specs flag. LeafInstall p dir specs flag \<in> set ex_leftpad_actions \<and> pkg_name p = ''a'')
   \<and> (\<exists>ls. map_of (leaves ex_leftpad_plan) ''a'' = Some ls \<and> list_ex (\<lambda>l. \<not> li_isSatisfied l) ls)
   \<and> \<not> (\<exists>p dir specs flag. LeafInstall p dir specs flag \<in> set ex_leftpad_actions \<and> pkg_name p = ''b'')"
proof -
  have keyed: "\<forall>n p. packageGraph ex_leftpad n = Some p \<longrightarrow> pkg_name p = n"
    by (auto simp: ex_leftpad_def example_defs split: if_splits)
  note inst = leaf_install_actions [OF ex_leftpad_planned ex_leftpad_installs keyed]
  have a: "\<exists>ls. map_of (leaves ex_leftpad_plan) ''a'' = Some ls \<and> (\<exists>l \<in> set ls. \<not> li_isSatisfied l)"
    by (simp add: ex_leftpad_plan_def)
  have b: "\<not> (\<exists>ls. map_of (leaves ex_leftpad_plan) ''b'' = Some ls \<and> (\<exists>l \<in> set ls. \<not> li_isSatisfied l))"
    by (simp add: ex_leftpad_plan_def)
  from inst [of "''a''"] a
  have ra: "\<exists>p dir specs flag. LeafInstall p dir specs flag \<in> set ex_leftpad_actions \<and> pkg_name p = ''a''"
    by blast
  from inst [of "''b''"] b
  have rb: "\<not> (\<exists>p dir specs flag. LeafInstall p dir specs flag \<in> set ex_leftpad_actions \<and> pkg_name p = ''b'')"
    by blast
  have g: "packageGraph ex_leftpad ''a'' = Some (mk_package ''a'' ''1.0.0'' [(''left-pad'', ''^1.0.0'')])"
    by (simp add: ex_leftpad_def example_defs)
  show ?thesis
    using ex_leftpad_planned ex_leftpad_installs g ra rb a by (simp add: list_ex_iff)
qed

section \<open>Facts about the aggregate\<close>

lemma fold_err_appends_inv:
  assumes "fold_err f xs s = Inr s'" and "P s"
    and "\<And>x t t'. x \<in> set xs \<Longrightarrow> P t \<Longrightarrow> f x t = Inr t' \<Longrightarrow> P t' \<and> g t' = g t @ h x"
  shows "P s' \<and> g s' = g s @ concat (map h xs)"
  using assms
proof (induction xs arbitrary: s)
  case Nil
  then show ?case by simp
next
  case (Cons x xs)
  from Cons.prems(1) obtain t where t: "f x s = Inr t" and r: "fold_err f xs t = Inr s'"
    by (auto split: sum.splits)
  have step: "P t \<and> g t = g s @ h x" using Cons.prems(3) [of x s t] Cons.prems(2) t by simp
  have "P s' \<and> g s' = g t @ concat (map h xs)"
  proof (rule Cons.IH [OF r])
    show "P t" using step by simp
  next
    fix y u u' assume "y \<in> set xs" "P u" "f y u = Inr u'"
    then show "P u' \<and> g u' = g u @ h y" using Cons.prems(3) [of y u u'] by simp
  qed
  with step show ?case by simp
qed

lemma js_get_Own: "js_get obj k = Own v \<longleftrightarrow> map_of obj k = Some v"
  by (auto simp: js_get_def split: option.splits)

lemma js_get_not_own: "map_of obj k = None \<Longrightarrow> js_get obj k \<noteq> Inherited \<Longrightarrow> js_get obj k = Undefined"
  by (auto simp: js_get_def split: option.splits if_splits)

lemma recordVersion_spec:
  assumes r: "recordVersion q v d = Inr d'"
    and ok: "versions d = [] \<and> dependents d = [] \<or> info_ok d"
  shows "info_ok d' \<and> (\<forall>w. depsOf d' w = depsOf d w @ (if w = v then [q] else []))"
proof -
  have rel: "\<forall>w. map_of (versions d) w = map_option length (map_of (dependents d) w)"
    and dist: "distinct (map fst (versions d))"
    using ok by (auto simp: info_ok_def)
  show ?thesis
  proof (cases "map_of (versions d) v")
    case None
    then have nd: "map_of (dependents d) v = None" using rel by (metis option.map_disc_iff)
    from r None have seen: "js_get (versions d) v = Undefined"
      by (auto simp: recordVersion_def Let_def js_get_def split: if_splits option.splits)
    from r seen have d': "d' = \<lparr>versions = AList.update v (Suc 0) (versions d),
                                 dependents = AList.update v [q] (dependents d)\<rparr>"
      by (auto simp: recordVersion_def Let_def js_get_def update_conv' split: if_splits)
    show ?thesis
      using rel dist nd
      by (auto simp: d' info_ok_def depsOf_def update_conv' distinct_update)
  next
    case (Some c)
    then obtain ps where ps: "map_of (dependents d) v = Some ps" and c: "c = length ps"
      using rel by (metis (no_types, lifting) map_option_eq_Some)
    have seen: "js_get (versions d) v = Own c" using Some by (simp add: js_get_Own)
    show ?thesis
    proof (cases "c = 0")
      case True
      then have "ps = []" using c by simp
      with r seen True have d': "d' = \<lparr>versions = AList.update v (Suc 0) (versions d),
                                 dependents = AList.update v [q] (dependents d)\<rparr>"
        by (auto simp: recordVersion_def Let_def js_get_def update_conv' split: if_splits)
      show ?thesis
        using rel dist ps \<open>ps = []\<close>
        by (auto simp: d' info_ok_def depsOf_def update_conv' distinct_update)
    next
      case False
      with r seen Some ps have d': "d' = \<lparr>versions = AList.update v (Suc c) (versions d),
                                 dependents = AList.update v (ps @ [q]) (dependents d)\<rparr>"
        by (auto simp: recordVersion_def Let_def js_get_def update_conv' split: if_splits)
      show ?thesis
        using rel dist ps c
        by (auto simp: d' info_ok_def depsOf_def update_conv' distinct_update)
    qed
  qed
qed

lemma addDependency_spec:
  assumes a: "addDependency q d deps = Inr deps'" and ok: "agg_ok deps"
  shows "agg_ok deps' \<and>
         (\<forall>n v. requesters deps' n v =
                 requesters deps n v @ (if n = dep_name d \<and> v = dep_version d then [q] else []))"
proof (cases "map_of deps (dep_name d)")
  case None
  with a obtain info' where
    rv: "recordVersion q (dep_version d) \<lparr>versions = [], dependents = []\<rparr> = Inr info'"
    and deps': "deps' = AList.update (dep_name d) info' deps"
    by (auto simp: addDependency_def js_get_def split: if_splits sum.splits)
  from recordVersion_spec [OF rv] have
    i: "info_ok info'" and
    l: "\<forall>w. depsOf info' w = (if w = dep_version d then [q] else [])"
    by (auto simp: depsOf_def)
  show ?thesis
    using ok None i l
    by (auto simp: deps' agg_ok_def requesters_def update_conv' distinct_update)
next
  case (Some info)
  with a obtain info' where
    rv: "recordVersion q (dep_version d) info = Inr info'"
    and deps': "deps' = AList.update (dep_name d) info' deps"
    by (auto simp: addDependency_def js_get_def split: if_splits sum.splits)
  have "info_ok info" using ok Some by (simp add: agg_ok_def)
  from recordVersion_spec [OF rv] this have
    i: "info_ok info'" and
    l: "\<forall>w. depsOf info' w = depsOf info w @ (if w = dep_version d then [q] else [])"
    by auto
  show ?thesis
    using ok Some i l
    by (auto simp: deps' agg_ok_def requesters_def update_conv' distinct_update)
qed

lemma seedRoot_spec: "agg_ok (seedRoot r) \<and> (\<forall>n v. requesters (seedRoot r) n v = [])"
proof -
  have "agg_ok (foldl (\<lambda>acc kv. AList.update (fst kv)
                \<lparr>versions = [(snd kv, 0)], dependents = [(snd kv, [])]\<rparr> acc) [] xs)
        \<and> (\<forall>n v. requesters (foldl (\<lambda>acc kv. AList.update (fst kv)
                \<lparr>versions = [(snd kv, 0)], dependents = [(snd kv, [])]\<rparr> acc) [] xs) n v = [])"
    for xs :: "(string \<times> string) list"
  proof (induction xs rule: rev_induct)
    case Nil
    show ?case by (simp add: agg_ok_def requesters_def)
  next
    case (snoc x xs)
    then show ?case
      by (auto simp: agg_ok_def requesters_def update_conv' distinct_update info_ok_def depsOf_def)
  qed
  then show ?thesis by (simp add: seedRoot_def)
qed

lemma collectDependencies_spec:
  assumes "collectDependencies X C = Inr deps"
  shows "agg_ok deps \<and> requesters deps n v = requestsOf X C n v"
proof -
  let ?h = "\<lambda>pkg d. if dep_name d = n \<and> dep_version d = v then [pkg_name pkg] else []"
  let ?g = "\<lambda>t. requesters t n v"
  have inner: "agg_ok t' \<and> ?g t' = ?g t @ concat (map (?h pkg) (externalDependencies X C pkg))"
    if "fold_err (addDependency (pkg_name pkg)) (externalDependencies X C pkg) t = Inr t'"
      and "agg_ok t" for pkg t t'
  proof (rule fold_err_appends_inv [where P = agg_ok and g = ?g and h = "?h pkg", OF that(1)])
    show "agg_ok t" by (rule that(2))
  next
    fix x u u' assume "agg_ok u" "addDependency (pkg_name pkg) x u = Inr u'"
    from addDependency_spec [OF this(2,1)]
    show "agg_ok u' \<and> ?g u' = ?g u @ ?h pkg x" by auto
  qed
  from assms have f: "fold_err (\<lambda>pkg. fold_err (addDependency (pkg_name pkg))
        (externalDependencies X C pkg)) (filteredPackages C) (seedRoot (rootAllDependencies C))
        = Inr deps"
    by (simp add: collectDependencies_def)
  have "agg_ok deps \<and> ?g deps = ?g (seedRoot (rootAllDependencies C)) @
          concat (map (\<lambda>pkg. concat (map (?h pkg) (externalDependencies X C pkg)))
                    (filteredPackages C))"
  proof (rule fold_err_appends_inv [where P = agg_ok and g = ?g, OF f])
    show "agg_ok (seedRoot (rootAllDependencies C))" by (simp add: seedRoot_spec)
  next
    fix pkg u u'
    assume "agg_ok u"
      "fold_err (addDependency (pkg_name pkg)) (externalDependencies X C pkg) u = Inr u'"
    from inner [OF this(2,1)]
    show "agg_ok u' \<and> ?g u' = ?g u @ concat (map (?h pkg) (externalDependencies X C pkg))" .
  qed
  then show ?thesis by (simp add: seedRoot_spec requestsOf_def)
qed

section \<open>The common version\<close>

lemma ex_leftpad_collected: "collectDependencies ex_externals ex_leftpad = Inr ex_leftpad_deps"
  by (simp add: model_defs example_defs ex_leftpad_def ex_leftpad_deps_def)

lemma foldl_moreCommon:
  assumes "\<forall>x \<in> set (k # ks). map_of vs x = Some (f x)"
  shows "foldl (moreCommon vs) k ks \<in> set (k # ks)
       \<and> (\<forall>x \<in> set (k # ks). f x \<le> f (foldl (moreCommon vs) k ks))
       \<and> foldl (moreCommon vs) k ks =
           last (filter (\<lambda>x. f x = f (foldl (moreCommon vs) k ks)) (k # ks))"
  using assms
proof (induction ks rule: rev_induct)
  case Nil
  show ?case by simp
next
  case (snoc b ks)
  let ?r = "foldl (moreCommon vs) k ks"
  from snoc have r: "?r \<in> set (k # ks)" and mx: "\<forall>x \<in> set (k # ks). f x \<le> f ?r"
    and lst: "?r = last (filter (\<lambda>x. f x = f ?r) (k # ks))"
    by simp_all
  have cr: "map_of vs ?r = Some (f ?r)" and cb: "map_of vs b = Some (f b)"
    using snoc.prems r by auto
  show ?case
  proof (cases "f ?r > f b")
    case True
    then have eq: "foldl (moreCommon vs) k (ks @ [b]) = ?r"
      using cr cb by (simp add: moreCommon_def)
    have "filter (\<lambda>x. f x = f ?r) ((k # ks) @ [b]) = filter (\<lambda>x. f x = f ?r) (k # ks)"
      using True by simp
    then show ?thesis
      unfolding eq using r mx lst True by (auto simp: less_imp_le)
  next
    case False
    then have eq: "foldl (moreCommon vs) k (ks @ [b]) = b"
      using cr cb by (simp add: moreCommon_def)
    show ?thesis
      unfolding eq using mx False by (auto intro: order_trans)
  qed
qed

lemma requesters_entry:
  "map_of deps n = Some info \<Longrightarrow> requesters deps n v = depsOf info v"
  by (simp add: requesters_def)

lemma info_ok_count:
  assumes "info_ok info" and "v \<in> set (object_keys (versions info))"
  shows "map_of (versions info) v = Some (length (depsOf info v))"
proof -
  from assms(2) obtain c where "map_of (versions info) v = Some c"
    by (metis set_object_keys map_of_eq_None_iff not_None_eq set_map)
  moreover from assms(1) have "map_of (versions info) v = map_option length (map_of (dependents info) v)"
    by (simp add: info_ok_def)
  ultimately show ?thesis by (auto simp: depsOf_def)
qed

text \<open>
  Claim C2, as the code has it. For every name of the aggregate the common version is a
  range with the highest requester count, and among the ranges that tie on that count it
  is the last one in the order of \<^verbatim>\<open>Object.keys(versions)\<close>: the \<^verbatim>\<open>reduce\<close> of line 328
  keeps its accumulator only when it is strictly more common.
\<close>

theorem common_version_last_most_requested:
  assumes "collectDependencies X C = Inr deps" and "map_of deps n = Some info"
  shows "\<exists>c. commonVersion (versions info) = Inr c
           \<and> c \<in> set (object_keys (versions info))
           \<and> (\<forall>v \<in> set (object_keys (versions info)).
                 length (requesters deps n v) \<le> length (requesters deps n c))
           \<and> c = last (filter (\<lambda>v. length (requesters deps n v) = length (requesters deps n c))
                         (object_keys (versions info)))"
proof -
  from collectDependencies_spec [OF assms(1)] assms(2) have ok: "info_ok info"
    by (auto simp: agg_ok_def)
  then have "object_keys (versions info) \<noteq> []"
    by (metis info_ok_def set_object_keys empty_set image_is_empty set_empty2)
  then obtain k ks where keys: "object_keys (versions info) = k # ks"
    by (cases "object_keys (versions info)") auto
  let ?f = "\<lambda>v. length (depsOf info v)"
  have "\<forall>x \<in> set (k # ks). map_of (versions info) x = Some (?f x)"
    using info_ok_count [OF ok] keys by simp
  from foldl_moreCommon [OF this] show ?thesis
    by (simp add: commonVersion_def keys requesters_entry [OF assms(2)])
qed

theorem common_version_last_most_requested_witness:
  "collectDependencies ex_externals ex_leftpad = Inr ex_leftpad_deps
   \<and> commonVersion [(''^1.0.0'', 1), (''^1.1.0'', 1)] = Inr ''^1.1.0''
   \<and> ''^1.1.0'' = last (filter (\<lambda>v. length (requesters ex_leftpad_deps ''left-pad'' v) =
                                    length (requesters ex_leftpad_deps ''left-pad'' ''^1.1.0''))
                          (object_keys [(''^1.0.0'', 1::nat), (''^1.1.0'', 1)]))"
proof -
  have m: "map_of ex_leftpad_deps ''left-pad'' =
      Some \<lparr>versions = [(''^1.0.0'', 1), (''^1.1.0'', 1)],
            dependents = [(''^1.0.0'', [''a'']), (''^1.1.0'', [''b''])]\<rparr>"
    by (simp add: ex_leftpad_deps_def)
  have c: "commonVersion [(''^1.0.0'', 1), (''^1.1.0'', 1)] = Inr ''^1.1.0''"
    by (simp add: model_defs)
  from common_version_last_most_requested [OF ex_leftpad_collected m]
  show ?thesis
    using ex_leftpad_collected c by simp
qed

text \<open>
  The claim as stated asks for the lexicographically smallest range on a tie. In its own
  two-package scenario both ranges have one requester, \<^verbatim>\<open>^1.0.0\<close> is the smaller string, and
  the planner installs \<^verbatim>\<open>left-pad@^1.1.0\<close> in the root.
\<close>

theorem common_version_tie_counterexample:
  "collectDependencies ex_externals ex_leftpad = Inr ex_leftpad_deps
   \<and> requesters ex_leftpad_deps ''left-pad'' ''^1.0.0'' = [''a'']
   \<and> requesters ex_leftpad_deps ''left-pad'' ''^1.1.0'' = [''b'']
   \<and> string_less ''^1.0.0'' ''^1.1.0''
   \<and> commonVersion [(''^1.0.0'', 1), (''^1.1.0'', 1)] = Inr ''^1.1.0''
   \<and> getDependenciesToInstall ex_externals ex_leftpad = Inr ex_leftpad_plan
   \<and> map ri_dependency (root ex_leftpad_plan) = [''left-pad@^1.1.0'']"
  using ex_leftpad_collected ex_leftpad_planned
  by (simp add: ex_leftpad_deps_def requesters_def depsOf_def ex_leftpad_plan_def model_defs string_less_def)

section \<open>The pair recorded for a requester\<close>

lemma count_list_concat:
  "count_list (concat xss) a = sum_list (map (\<lambda>xs. count_list xs a) xss)"
  by (induction xss) simp_all

lemma sum_list_single:
  assumes "distinct (map g xs)" and "x \<in> set xs"
  shows "sum_list (map (\<lambda>y. if g y = g x then h y else (0::nat)) xs) = h x"
  using assms
proof (induction xs)
  case Nil
  then show ?case by simp
next
  case (Cons y ys)
  show ?case
  proof (cases "y = x")
    case True
    with Cons.prems have "\<forall>z \<in> set ys. g z \<noteq> g x" by (auto simp: image_iff)
    then have "sum_list (map (\<lambda>y. if g y = g x then h y else 0) ys) = 0"
      by simp
    with True show ?thesis by simp
  next
    case False
    with Cons.prems have "x \<in> set ys" "g y \<noteq> g x" by auto
    with Cons show ?thesis by simp
  qed
qed

lemma filter_key_single:
  assumes "distinct (map fst es)" and "(k, v) \<in> set es"
  shows "filter (\<lambda>kv. fst kv = k) es = [(k, v)]"
  using assms
proof (induction es)
  case Nil
  then show ?case by simp
next
  case (Cons e es)
  show ?case
  proof (cases "e = (k, v)")
    case True
    with Cons.prems have "\<forall>kv \<in> set es. fst kv \<noteq> k" by force
    then have "filter (\<lambda>kv. fst kv = k) es = []" by (simp add: filter_empty_conv)
    with True show ?thesis by simp
  next
    case False
    with Cons.prems have in_es: "(k, v) \<in> set es" by auto
    then have "k \<in> fst ` set es" by force
    with Cons.prems have "fst e \<noteq> k" by auto
    with Cons in_es show ?thesis by simp
  qed
qed

lemma normalizeDependency_name: "dep_name (normalizeDependency X C kv) = fst kv"
  by (auto simp: normalizeDependency_def findPackage_def split: option.splits dest: find_Some_iff [THEN iffD1])

lemma not_skipped_needsInstall:
  "\<not> skipped X C pkg name rng \<Longrightarrow> needsInstall X C pkg (normalizeDependency X C (name, rng))"
  by (auto simp: skipped_def needsInstall_def normalizeDependency_def hasPackage_def
           split: option.splits)

lemma requests_of_package:
  assumes dist: "distinct (map fst (pkg_allDependencies pkg))"
    and decl: "(name, rng) \<in> set (pkg_allDependencies pkg)"
  shows "filter (\<lambda>d. dep_name d = name \<and> dep_version d = v) (externalDependencies X C pkg) =
         (if needsInstall X C pkg (normalizeDependency X C (name, rng))
             \<and> dep_version (normalizeDependency X C (name, rng)) = v
          then [normalizeDependency X C (name, rng)] else [])"
proof -
  let ?es = "object_entries (pkg_allDependencies pkg)"
  let ?R = "\<lambda>kv. needsInstall X C pkg (normalizeDependency X C kv)
                 \<and> dep_version (normalizeDependency X C kv) = v"
  have single: "filter (\<lambda>kv. fst kv = name) ?es = [(name, rng)]"
    by (rule filter_key_single)
       (simp_all add: distinct_object_entries dist set_object_entries decl)
  have "filter (\<lambda>d. dep_name d = name \<and> dep_version d = v) (externalDependencies X C pkg) =
        map (normalizeDependency X C) (filter ?R (filter (\<lambda>kv. fst kv = name) ?es))"
    by (auto simp: externalDependencies_def filter_map comp_def normalizeDependency_name
             intro!: arg_cong [where f = "map (normalizeDependency X C)"] filter_cong)
  then show ?thesis by (simp add: single)
qed

lemma count_requestsOf:
  assumes names: "distinct (map pkg_name (filteredPackages C))"
    and pkg: "pkg \<in> set (filteredPackages C)"
  shows "count_list (requestsOf X C n v) (pkg_name pkg) =
         length (filter (\<lambda>d. dep_name d = n \<and> dep_version d = v) (externalDependencies X C pkg))"
proof -
  have inner: "count_list (concat (map (\<lambda>d. if dep_name d = n \<and> dep_version d = v
                                           then [pkg_name p] else []) ds)) (pkg_name pkg) =
        (if pkg_name p = pkg_name pkg
         then length (filter (\<lambda>d. dep_name d = n \<and> dep_version d = v) ds) else 0)"
    for p :: package and ds :: "dep list"
    by (induction ds) auto
  have "count_list (requestsOf X C n v) (pkg_name pkg) =
        sum_list (map (\<lambda>p. count_list (concat (map (\<lambda>d. if dep_name d = n \<and> dep_version d = v
                                           then [pkg_name p] else []) (externalDependencies X C p)))
                              (pkg_name pkg)) (filteredPackages C))"
    by (simp only: requestsOf_def count_list_concat [of "map _ (filteredPackages C)"] map_map comp_def)
  also have "\<dots> = sum_list (map (\<lambda>p. if pkg_name p = pkg_name pkg
         then length (filter (\<lambda>d. dep_name d = n \<and> dep_version d = v)
                        (externalDependencies X C p)) else 0) (filteredPackages C))"
    by (simp only: inner)
  also have "\<dots> = length (filter (\<lambda>d. dep_name d = n \<and> dep_version d = v)
                        (externalDependencies X C pkg))"
    by (rule sum_list_single [OF names pkg])
  finally show ?thesis .
qed

text \<open>
  What the code records. A declared dependency that is not skipped is recorded against
  its requester exactly once under its name: with the declared range when \<^verbatim>\<open>findPackage\<close>
  finds no repo-local package for it, and with the version of the package found otherwise
  (lines 293 and 300 take \<^verbatim>\<open>version\<close> from the object that \<^verbatim>\<open>findPackage\<close> returned).
\<close>

lemma recorded_once:
  assumes collect: "collectDependencies X C = Inr deps"
    and names: "distinct (map pkg_name (filteredPackages C))"
    and pkg: "pkg \<in> set (filteredPackages C)"
    and dist: "distinct (map fst (pkg_allDependencies pkg))"
    and decl: "(name, rng) \<in> set (pkg_allDependencies pkg)"
    and kept: "\<not> skipped X C pkg name rng"
  shows "count_list (requesters deps name v) (pkg_name pkg) =
         (if v = (case findPackage X C name (Some rng) of
                    None \<Rightarrow> rng
                  | Some p \<Rightarrow> pkg_version p)
          then 1 else 0)"
proof -
  have rec: "dep_version (normalizeDependency X C (name, rng)) =
        (case findPackage X C name (Some rng) of None \<Rightarrow> rng | Some p \<Rightarrow> pkg_version p)"
    by (simp add: normalizeDependency_def split: option.splits)
  have "requesters deps name v = requestsOf X C name v"
    using collectDependencies_spec [OF collect] by simp
  then show ?thesis
    using count_requestsOf [OF names pkg, of X name v]
      requests_of_package [OF dist decl, of v X C] not_skipped_needsInstall [OF kept] rec
    by auto
qed

text \<open>
  With a collaborator that compares versions, a dependency whose range is not empty and
  that is not skipped has no matching repo-local package, so the pair recorded is the
  declared one: the filter of line 298 keeps the external and the version-mismatched
  dependencies, as the comment of line 297 has it.
\<close>

lemma recorded_declared_range:
  assumes collect: "collectDependencies X C = Inr deps"
    and names: "distinct (map pkg_name (filteredPackages C))"
    and pkg: "pkg \<in> set (filteredPackages C)"
    and dist: "distinct (map fst (pkg_allDependencies pkg))"
    and decl: "(name, rng) \<in> set (pkg_allDependencies pkg)"
    and kept: "\<not> skipped X C pkg name rng"
    and versions: "hasMatchingDependency X = versionMatch X"
    and nonempty: "rng \<noteq> []"
  shows "count_list (requesters deps name v) (pkg_name pkg) = (if v = rng then 1 else 0)"
proof -
  have none: "findPackage X C name (Some rng) = None"
  proof (rule ccontr)
    assume "findPackage X C name (Some rng) \<noteq> None"
    then obtain p where f: "findPackage X C name (Some rng) = Some p" by auto
    then have "pkg_name p = name \<and> (\<not> truthy (Some rng) \<or> satisfies X (pkg_version p) rng)"
      unfolding findPackage_def by (auto simp: find_Some_iff)
    with nonempty have p: "pkg_name p = name" "satisfies X (pkg_version p) rng"
      by (simp_all add: truthy_def)
    have "map_of (pkg_allDependencies pkg) name = Some rng"
      using dist decl by simp
    with p nonempty have "versionMatch X pkg \<lparr>dep_name = pkg_name p, dep_version = pkg_version p\<rparr>"
      by (simp add: versionMatch_def truthy_def)
    with kept f versions show False by (simp add: skipped_def)
  qed
  show ?thesis
    unfolding recorded_once [OF collect names pkg dist decl kept, of v] none by simp
qed

lemma ex_any_version_requests:
  "externalDependencies ex_version_externals ex_any_version ex_any_version_a
     = [\<lparr>dep_name = ''b'', dep_version = ''1.2.3''\<rparr>]"
  by (simp add: model_defs example_defs ex_version_externals_def versionMatch_def
        ex_any_version_def ex_any_version_a_def)

lemma no_requests:
  "externalDependencies X C (mk_package n v []) = []"
  by (simp add: externalDependencies_def object_entries_def mk_package_def)

lemma ex_any_version_collected:
  "collectDependencies ex_version_externals ex_any_version = Inr ex_any_version_deps"
proof -
  have n: "pkg_name ex_any_version_a = ''a''"
    by (simp add: ex_any_version_a_def mk_package_def)
  have "collectDependencies ex_version_externals ex_any_version =
          fold_err (\<lambda>pkg. fold_err (addDependency (pkg_name pkg))
                            (externalDependencies ex_version_externals ex_any_version pkg))
            [ex_any_version_a, mk_package ''b'' ''1.2.3'' []] []"
    by (simp add: collectDependencies_def ex_any_version_def mk_command_def seedRoot_def
          object_entries_def)
  also have "\<dots> = Inr ex_any_version_deps"
    by (simp add: ex_any_version_requests no_requests n addDependency_def recordVersion_def
          js_get_def object_prototype_names_def ex_any_version_deps_def)
  finally show ?thesis .
qed

lemma ex_any_version_planned:
  "getDependenciesToInstall ex_version_externals ex_any_version = Inr ex_any_version_plan"
  unfolding getDependenciesToInstall_def ex_any_version_collected
  by (simp add: model_defs example_defs ex_version_externals_def ex_any_version_def
        ex_any_version_a_def ex_any_version_deps_def ex_any_version_plan_def)

lemma ex_sibling_skipped: "collectDependencies ex_version_externals ex_sibling = Inr []"
proof -
  have "externalDependencies ex_version_externals ex_sibling ex_sibling_a = []"
    by (simp add: model_defs example_defs ex_version_externals_def versionMatch_def
          ex_sibling_def ex_sibling_a_def)
  moreover have "collectDependencies ex_version_externals ex_sibling =
          fold_err (\<lambda>pkg. fold_err (addDependency (pkg_name pkg))
                            (externalDependencies ex_version_externals ex_sibling pkg))
            [ex_sibling_a, mk_package ''b'' ''1.2.3'' []] []"
    by (simp add: collectDependencies_def ex_sibling_def mk_command_def seedRoot_def
          object_entries_def)
  ultimately show ?thesis by (simp add: no_requests)
qed

text \<open>
  Claim C5. The claim has the pair recorded for a dependency that is not skipped be the
  name with the range that the requester declares. The code misses it on the empty range,
  which line 228 takes for no range at all (\<^verbatim>\<open>!version\<close>), so that any repo-local package of
  the name matches, while \<^verbatim>\<open>hasMatchingDependency\<close> takes the same empty range for a missing
  one and answers no. Here \<^verbatim>\<open>a\<close> declares \<^verbatim>\<open>b\<close> with the empty range and the repo-local \<^verbatim>\<open>b\<close> is
  at \<^verbatim>\<open>1.2.3\<close>: the dependency is not skipped, the aggregate has \<^verbatim>\<open>a\<close> under \<^verbatim>\<open>1.2.3\<close> and
  nothing under the declared range, and the leaf install of \<^verbatim>\<open>a\<close> is \<^verbatim>\<open>b@1.2.3\<close>. With the range
  \<^verbatim>\<open>^1.0.0\<close> in place of the empty one the dependency is skipped and nothing is recorded.
\<close>

theorem empty_range_records_version:
  "ex_any_version_a \<in> set (filteredPackages ex_any_version)
   \<and> pkg_name ex_any_version_a = ''a''
   \<and> pkg_allDependencies ex_any_version_a = [(''b'', '''')]
   \<and> hasPackage ex_version_externals ex_any_version ''b'' (Some '''')
   \<and> \<not> skipped ex_version_externals ex_any_version ex_any_version_a ''b'' ''''
   \<and> collectDependencies ex_version_externals ex_any_version = Inr ex_any_version_deps
   \<and> requesters ex_any_version_deps ''b'' '''' = []
   \<and> requesters ex_any_version_deps ''b'' ''1.2.3'' = [''a'']
   \<and> getDependenciesToInstall ex_version_externals ex_any_version = Inr ex_any_version_plan
   \<and> map_of (leaves ex_any_version_plan) ''a''
       = Some [\<lparr>li_dependency = ''b@1.2.3'', li_isSatisfied = False\<rparr>]
   \<and> collectDependencies ex_version_externals ex_sibling = Inr []"
proof -
  have f: "findPackage ex_version_externals ex_any_version ''b'' (Some '''')
       = Some (mk_package ''b'' ''1.2.3'' [])"
    by (simp add: findPackage_def truthy_def ex_any_version_def ex_any_version_a_def
          mk_command_def mk_package_def)
  have h: "hasPackage ex_version_externals ex_any_version ''b'' (Some '''')"
    by (simp add: hasPackage_def f)
  have k: "\<not> skipped ex_version_externals ex_any_version ex_any_version_a ''b'' ''''"
    by (simp add: skipped_def f)
       (simp add: ex_version_externals_def versionMatch_def truthy_def ex_any_version_a_def
          mk_package_def)
  have a: "ex_any_version_a \<in> set (filteredPackages ex_any_version)"
    "pkg_name ex_any_version_a = ''a''" "pkg_allDependencies ex_any_version_a = [(''b'', '''')]"
    by (simp_all add: ex_any_version_def ex_any_version_a_def mk_command_def mk_package_def)
  have r: "requesters ex_any_version_deps ''b'' '''' = []"
    "requesters ex_any_version_deps ''b'' ''1.2.3'' = [''a'']"
    by (simp_all add: ex_any_version_deps_def requesters_def depsOf_def)
  have l: "map_of (leaves ex_any_version_plan) ''a''
       = Some [\<lparr>li_dependency = ''b@1.2.3'', li_isSatisfied = False\<rparr>]"
    by (simp add: ex_any_version_plan_def)
  show ?thesis
    using h k a r l ex_any_version_collected ex_any_version_planned ex_sibling_skipped
    by simp
qed

section \<open>Facts about the plan\<close>

lemma hoistDependency_spec:
  assumes "hoistDependency X C n info st = Inr (rv, st')"
  shows "rv = rootVersionOf X C n info \<and> leaves st' = leaves st
       \<and> warnings st' = warnings st @ rootWarning n info rv
       \<and> map ri_name (root st') = map ri_name (root st) @ entryRoots X C (n, info)
       \<and> (isHoisted X C n \<longrightarrow> (\<exists>r ds. rv = Some r \<and> commonVersion (versions info) = Inr (commonOf info)
              \<and> rootVersionFor C n (commonOf info) = Inr r
              \<and> rootDependents C info r = Inr ds
              \<and> root st' = root st @ [\<lparr>ri_name = n, ri_dependents = ds,
                     ri_dependency = spec_string n r,
                     ri_isSatisfied = repositoryHasDependencyInstalled X n r\<rparr>]))
       \<and> (\<not> isHoisted X C n \<longrightarrow> rv = None \<and> root st' = root st)"
  using assms
  by (auto simp: hoistDependency_def rootVersionOf_def commonOf_def rootWarning_def entryRoots_def
           split: if_splits sum.splits)

lemma addLeaf_spec:
  assumes "addLeaf X C n v rv q st = Inr st'"
  shows "root st' = root st \<and> warnings st' = warnings st @ pkgWarning n v rv q
       \<and> leafSpecs st' p = leafSpecs st p @ (if p = q then [spec_string n v] else [])"
  using assms
  by (auto simp: addLeaf_def pkgWarning_def leafSpecs_def ownOrEmpty_def js_get_def update_conv'
           split: sum.splits option.splits lookup.splits if_splits)

lemma addLeaves_spec:
  assumes a: "addLeaves X C n info rv v st = Inr st'"
  shows "root st' = root st \<and> warnings st' = warnings st @ versionWarnings n info rv v
       \<and> leafSpecs st' p = leafSpecs st p @ versionLeaves n info rv p v"
proof (cases "Some v = rv")
  case True
  with a show ?thesis by (simp add: addLeaves_def versionWarnings_def versionLeaves_def)
next
  case False
  with a obtain ps where ps: "map_of (dependents info) v = Some ps"
    and f: "fold_err (addLeaf X C n v rv) ps st = Inr st'"
    by (auto simp: addLeaves_def split: option.splits)
  have d: "depsOf info v = ps" by (simp add: depsOf_def ps)
  have r: "root st' = root st"
    by (rule fold_err_inv [OF f, where P = "\<lambda>t. root t = root st"]) (auto dest: addLeaf_spec)
  have w: "warnings st' = warnings st @ concat (map (pkgWarning n v rv) ps)"
    by (rule fold_err_appends [OF f]) (auto dest: addLeaf_spec)
  have l: "leafSpecs st' p = leafSpecs st p
             @ concat (map (\<lambda>q. if p = q then [spec_string n v] else []) ps)"
    by (rule fold_err_appends [OF f, where g = "\<lambda>t. leafSpecs t p"])
       (auto dest: addLeaf_spec [where p = p])
  show ?thesis using False r w l by (simp add: versionWarnings_def versionLeaves_def d)
qed

lemma placeDependency_spec:
  assumes a: "placeDependency X C e st = Inr st'"
  shows "warnings st' = warnings st @ entryWarnings X C e
       \<and> leafSpecs st' p = leafSpecs st p @ entryLeaves X C p e
       \<and> map ri_name (root st') = map ri_name (root st) @ entryRoots X C e"
proof -
  from a obtain rv st1 where
    h: "hoistDependency X C (fst e) (snd e) st = Inr (rv, st1)"
    and f: "fold_err (addLeaves X C (fst e) (snd e) rv) (object_keys (versions (snd e))) st1
              = Inr st'"
    by (auto simp: placeDependency_def split: sum.splits)
  note hs = hoistDependency_spec [OF h]
  have rv: "rv = rootVersionOf X C (fst e) (snd e)" using hs by simp
  have r: "root st' = root st1"
    by (rule fold_err_inv [OF f, where P = "\<lambda>t. root t = root st1"]) (auto dest: addLeaves_spec)
  have w: "warnings st' = warnings st1
             @ concat (map (versionWarnings (fst e) (snd e) rv) (object_keys (versions (snd e))))"
    by (rule fold_err_appends [OF f]) (auto dest: addLeaves_spec)
  have l: "leafSpecs st' p = leafSpecs st1 p
             @ concat (map (versionLeaves (fst e) (snd e) rv p) (object_keys (versions (snd e))))"
    by (rule fold_err_appends [OF f, where g = "\<lambda>t. leafSpecs t p"])
       (auto dest: addLeaves_spec [where p = p])
  have ls: "leafSpecs st1 p = leafSpecs st p" using hs by (simp add: leafSpecs_def)
  show ?thesis
    using hs r w l ls by (simp add: entryWarnings_def entryLeaves_def rv [symmetric])
qed

lemma plan_spec:
  assumes plan: "getDependenciesToInstall X C = Inr plan"
    and collect: "collectDependencies X C = Inr deps"
  shows "warnings plan = concat (map (entryWarnings X C) (object_entries deps))
       \<and> leafSpecs plan p = concat (map (entryLeaves X C p) (object_entries deps))
       \<and> map ri_name (root plan) = concat (map (entryRoots X C) (object_entries deps))"
proof -
  let ?st0 = "\<lparr>root = [], leaves = [], warnings = []\<rparr>"
  from plan collect have
    f: "fold_err (placeDependency X C) (object_entries deps) ?st0 = Inr plan"
    by (simp add: getDependenciesToInstall_def)
  have w: "warnings plan = warnings ?st0 @ concat (map (entryWarnings X C) (object_entries deps))"
    by (rule fold_err_appends [OF f]) (auto dest: placeDependency_spec)
  have l: "leafSpecs plan p = leafSpecs ?st0 p
             @ concat (map (entryLeaves X C p) (object_entries deps))"
    by (rule fold_err_appends [OF f, where g = "\<lambda>t. leafSpecs t p"])
       (auto dest: placeDependency_spec [where p = p])
  have r: "map ri_name (root plan) = map ri_name (root ?st0)
             @ concat (map (entryRoots X C) (object_entries deps))"
    by (rule fold_err_appends [OF f, where g = "\<lambda>t. map ri_name (root t)"])
       (auto dest: placeDependency_spec)
  show ?thesis using w l r by (simp add: leafSpecs_def)
qed

section \<open>Coverage of the declared dependencies\<close>

lemma ex_mismatch_collected: "collectDependencies ex_externals ex_mismatch = Inr ex_mismatch_deps"
  by (simp add: model_defs example_defs ex_mismatch_def ex_mismatch_a_def ex_mismatch_deps_def)

lemma ex_mismatch_planned: "getDependenciesToInstall ex_externals ex_mismatch = Inr ex_mismatch_plan"
  by (simp add: model_defs example_defs ex_mismatch_def ex_mismatch_a_def ex_mismatch_plan_def)

lemma plan_collected:
  "getDependenciesToInstall X C = Inr plan \<Longrightarrow> \<exists>deps. collectDependencies X C = Inr deps"
  by (auto simp: getDependenciesToInstall_def split: sum.splits)

lemma external_request:
  assumes pkg: "pkg \<in> set (filteredPackages C)"
    and decl: "(name, rng) \<in> set (pkg_allDependencies pkg)"
    and needs: "needsInstall X C pkg (normalizeDependency X C (name, rng))"
  shows "pkg_name pkg \<in> set (requestsOf X C name (dep_version (normalizeDependency X C (name, rng))))"
proof -
  let ?d = "normalizeDependency X C (name, rng)"
  have "?d \<in> set (externalDependencies X C pkg)"
    using decl needs by (auto simp: externalDependencies_def set_object_entries)
  moreover have "dep_name ?d = name" by (simp add: normalizeDependency_name)
  ultimately show ?thesis
    using pkg by (fastforce simp: requestsOf_def)
qed

lemma requester_entry:
  assumes ok: "agg_ok deps" and q: "q \<in> set (requesters deps n v)"
  shows "\<exists>info. (n, info) \<in> set (object_entries deps) \<and> v \<in> set (object_keys (versions info))
           \<and> q \<in> set (depsOf info v)"
proof -
  from q obtain info where m: "map_of deps n = Some info" and d: "q \<in> set (depsOf info v)"
    by (cases "map_of deps n") (auto simp: requesters_def)
  from d obtain ps where "map_of (dependents info) v = Some ps"
    by (cases "map_of (dependents info) v") (auto simp: depsOf_def)
  moreover have "info_ok info" using ok m by (simp add: agg_ok_def)
  ultimately have "map_of (versions info) v \<noteq> None" by (simp add: info_ok_def)
  then have "v \<in> set (object_keys (versions info))"
    by (simp add: set_object_keys map_of_eq_None_iff)
  moreover have "(n, info) \<in> set (object_entries deps)"
    using m by (simp add: set_object_entries map_of_SomeD)
  ultimately show ?thesis using d by blast
qed

lemma leafSpecs_mem:
  "s \<in> set (leafSpecs plan p) \<longleftrightarrow>
     (\<exists>ls. map_of (leaves plan) p = Some ls \<and> s \<in> li_dependency ` set ls)"
  by (cases "map_of (leaves plan) p") (auto simp: leafSpecs_def)

lemma unhoisted_leaf:
  assumes plan: "getDependenciesToInstall X C = Inr plan"
    and collect: "collectDependencies X C = Inr deps"
    and q: "q \<in> set (requesters deps n v)"
    and nohoist: "\<not> isHoisted X C n"
  shows "spec_string n v \<in> set (leafSpecs plan q)"
proof -
  have ok: "agg_ok deps" using collectDependencies_spec [OF collect] by simp
  from requester_entry [OF ok q] obtain info where
    e: "(n, info) \<in> set (object_entries deps)" and v: "v \<in> set (object_keys (versions info))"
    and d: "q \<in> set (depsOf info v)" by blast
  have "rootVersionOf X C n info = None" using nohoist by (simp add: rootVersionOf_def)
  then have "spec_string n v \<in> set (versionLeaves n info (rootVersionOf X C n info) q v)"
    using d by (auto simp: versionLeaves_def)
  then have "spec_string n v \<in> set (entryLeaves X C q (n, info))"
    using v by (auto simp: entryLeaves_def)
  then show ?thesis
    using e plan_spec [OF plan collect, of q] by auto
qed

text \<open>
  Claim C1. Whenever the planner returns a plan, every dependency \<open>(name, rng)\<close> that a
  filtered package declares and that is not skipped (no repo-local package that matches
  the range is in place in the requester) has its name among the root installs, or a spec
  \<^verbatim>\<open>name@version\<close> among the leaf installs of that requester.
\<close>

theorem plan_coverage:
  assumes plan: "getDependenciesToInstall X C = Inr plan"
    and pkg: "pkg \<in> set (filteredPackages C)"
    and decl: "(name, rng) \<in> set (pkg_allDependencies pkg)"
    and kept: "\<not> skipped X C pkg name rng"
  shows "name \<in> ri_name ` set (root plan)
       \<or> (\<exists>ls v. map_of (leaves plan) (pkg_name pkg) = Some ls
                \<and> spec_string name v \<in> li_dependency ` set ls)"
proof -
  from plan_collected [OF plan] obtain deps where collect: "collectDependencies X C = Inr deps" ..
  let ?v = "dep_version (normalizeDependency X C (name, rng))"
  have q: "pkg_name pkg \<in> set (requesters deps name ?v)"
    using external_request [OF pkg decl not_skipped_needsInstall [OF kept]]
      collectDependencies_spec [OF collect] by simp
  show ?thesis
  proof (cases "isHoisted X C name")
    case True
    have ok: "agg_ok deps" using collectDependencies_spec [OF collect] by simp
    from requester_entry [OF ok q] obtain info where
      "(name, info) \<in> set (object_entries deps)" by blast
    then have "name \<in> set (concat (map (entryRoots X C) (object_entries deps)))"
      using True by (force simp: entryRoots_def)
    then have "name \<in> set (map ri_name (root plan))"
      using plan_spec [OF plan collect] by simp
    then show ?thesis by simp
  next
    case False
    from unhoisted_leaf [OF plan collect q False] show ?thesis
      by (auto simp: leafSpecs_mem)
  qed
qed

theorem plan_coverage_witness:
  "getDependenciesToInstall ex_externals ex_mismatch = Inr ex_mismatch_plan
   \<and> ex_mismatch_a \<in> set (filteredPackages ex_mismatch)
   \<and> (''b'', ''^1.0.0'') \<in> set (pkg_allDependencies ex_mismatch_a)
   \<and> \<not> skipped ex_externals ex_mismatch ex_mismatch_a ''b'' ''^1.0.0''
   \<and> ''b'' \<notin> ri_name ` set (root ex_mismatch_plan)
   \<and> (\<exists>ls v. map_of (leaves ex_mismatch_plan) ''a'' = Some ls
            \<and> spec_string ''b'' v \<in> li_dependency ` set ls)"
proof -
  have pkg: "ex_mismatch_a \<in> set (filteredPackages ex_mismatch)"
    by (simp add: ex_mismatch_def example_defs)
  have decl: "(''b'', ''^1.0.0'') \<in> set (pkg_allDependencies ex_mismatch_a)"
    by (simp add: ex_mismatch_a_def example_defs)
  have kept: "\<not> skipped ex_externals ex_mismatch ex_mismatch_a ''b'' ''^1.0.0''"
    by (simp add: skipped_def findPackage_def truthy_def ex_mismatch_def ex_mismatch_a_def
          example_defs)
  have noroot: "''b'' \<notin> ri_name ` set (root ex_mismatch_plan)"
    by (simp add: ex_mismatch_plan_def)
  have n: "pkg_name ex_mismatch_a = ''a''" by (simp add: ex_mismatch_a_def example_defs)
  from plan_coverage [OF ex_mismatch_planned pkg decl kept] noroot
  show ?thesis
    using ex_mismatch_planned pkg decl kept by (simp add: n)
qed

section \<open>A repo-local package of another version\<close>

lemma ex_mismatch_hoisted_collected:
  "collectDependencies ex_externals ex_mismatch_hoisted = Inr ex_mismatch_deps"
  by (simp add: model_defs example_defs ex_mismatch_hoisted_def ex_mismatch_def ex_mismatch_a_def
        ex_mismatch_deps_def)

text \<open>
  Claim C6. A requester declares \<open>(name, rng)\<close>; a repo-local package has that name, and
  none of that name satisfies the range, which is the test of line 228 (it lets an empty
  range pass for every version). Then the requester is recorded in the aggregate under
  the declared range, whether the name is hoisted or not; and in every plan the planner
  returns, when the name is not hoisted, the spec \<^verbatim>\<open>name@rng\<close> is a leaf install of the
  requester.
\<close>

theorem mismatched_local_is_external:
  assumes collect: "collectDependencies X C = Inr deps"
    and pkg: "pkg \<in> set (filteredPackages C)"
    and decl: "(name, rng) \<in> set (pkg_allDependencies pkg)"
    and local: "\<exists>p \<in> set (packages C). pkg_name p = name"
    and mismatch: "findPackage X C name (Some rng) = None"
  shows "pkg_name pkg \<in> set (requesters deps name rng)
       \<and> (\<forall>plan. getDependenciesToInstall X C = Inr plan \<and> \<not> isHoisted X C name
            \<longrightarrow> (\<exists>ls. map_of (leaves plan) (pkg_name pkg) = Some ls
                    \<and> spec_string name rng \<in> li_dependency ` set ls))"
proof -
  have norm: "normalizeDependency X C (name, rng) = \<lparr>dep_name = name, dep_version = rng\<rparr>"
    using mismatch by (simp add: normalizeDependency_def)
  have "needsInstall X C pkg (normalizeDependency X C (name, rng))"
    using mismatch by (simp add: norm needsInstall_def hasPackage_def)
  from external_request [OF pkg decl this]
  have q: "pkg_name pkg \<in> set (requesters deps name rng)"
    using collectDependencies_spec [OF collect] by (simp add: norm)
  have "\<exists>ls. map_of (leaves plan) (pkg_name pkg) = Some ls
              \<and> spec_string name rng \<in> li_dependency ` set ls"
    if plan: "getDependenciesToInstall X C = Inr plan" and nohoist: "\<not> isHoisted X C name"
    for plan
    using unhoisted_leaf [OF plan collect q nohoist] by (simp add: leafSpecs_mem)
  with q show ?thesis by blast
qed

theorem mismatched_local_is_external_witness:
  "collectDependencies ex_externals ex_mismatch = Inr ex_mismatch_deps
   \<and> ex_mismatch_a \<in> set (filteredPackages ex_mismatch)
   \<and> (''b'', ''^1.0.0'') \<in> set (pkg_allDependencies ex_mismatch_a)
   \<and> mk_package ''b'' ''2.0.0'' [] \<in> set (packages ex_mismatch)
   \<and> findPackage ex_externals ex_mismatch ''b'' (Some ''^1.0.0'') = None
   \<and> ''a'' \<in> set (requesters ex_mismatch_deps ''b'' ''^1.0.0'')
   \<and> getDependenciesToInstall ex_externals ex_mismatch = Inr ex_mismatch_plan
   \<and> \<not> isHoisted ex_externals ex_mismatch ''b''
   \<and> map_of (leaves ex_mismatch_plan) ''a''
       = Some [\<lparr>li_dependency = ''b@^1.0.0'', li_isSatisfied = False\<rparr>]
   \<and> spec_string ''b'' ''^1.0.0'' = ''b@^1.0.0''
   \<and> collectDependencies ex_externals ex_mismatch_hoisted = Inr ex_mismatch_deps
   \<and> isHoisted ex_externals ex_mismatch_hoisted ''b''"
proof -
  have pkg: "ex_mismatch_a \<in> set (filteredPackages ex_mismatch)"
    by (simp add: ex_mismatch_def example_defs)
  have decl: "(''b'', ''^1.0.0'') \<in> set (pkg_allDependencies ex_mismatch_a)"
    by (simp add: ex_mismatch_a_def example_defs)
  have b: "mk_package ''b'' ''2.0.0'' [] \<in> set (packages ex_mismatch)"
    by (simp add: ex_mismatch_def example_defs)
  then have local: "\<exists>p \<in> set (packages ex_mismatch). pkg_name p = ''b''"
    by (rule bexI [rotated]) (simp add: example_defs)
  have mismatch: "findPackage ex_externals ex_mismatch ''b'' (Some ''^1.0.0'') = None"
    by (simp add: findPackage_def truthy_def ex_mismatch_def ex_mismatch_a_def example_defs)
  have nohoist: "\<not> isHoisted ex_externals ex_mismatch ''b''"
    by (simp add: isHoisted_def truthy_def ex_mismatch_def example_defs)
  have hoist: "isHoisted ex_externals ex_mismatch_hoisted ''b''"
    by (simp add: isHoisted_def truthy_def ex_mismatch_hoisted_def ex_mismatch_def example_defs)
  have n: "pkg_name ex_mismatch_a = ''a''" by (simp add: ex_mismatch_a_def example_defs)
  have l: "map_of (leaves ex_mismatch_plan) ''a''
       = Some [\<lparr>li_dependency = ''b@^1.0.0'', li_isSatisfied = False\<rparr>]"
    by (simp add: ex_mismatch_plan_def)
  have s: "spec_string ''b'' ''^1.0.0'' = ''b@^1.0.0''" by (simp add: spec_string_def)
  from mismatched_local_is_external [OF ex_mismatch_collected pkg decl local mismatch]
  have "''a'' \<in> set (requesters ex_mismatch_deps ''b'' ''^1.0.0'')" by (simp add: n)
  then show ?thesis
    using ex_mismatch_planned ex_mismatch_collected ex_mismatch_hoisted_collected
      pkg decl b mismatch nohoist hoist l s by simp
qed

section \<open>A dependency of the root manifest alone\<close>

lemma spec_string_name:
  assumes "npm_name n" and "npm_name m" and "spec_string n v = spec_string m w"
  shows "n = m"
proof -
  from assms(3) have eq: "n @ CHR ''@'' # v = m @ CHR ''@'' # w"
    by (simp add: spec_string_def)
  then obtain us where
    "n = m @ us \<and> us @ CHR ''@'' # v = CHR ''@'' # w \<or> n @ us = m \<and> CHR ''@'' # v = us @ CHR ''@'' # w"
    by (auto simp: append_eq_append_conv2)
  then show ?thesis
  proof
    assume a: "n = m @ us \<and> us @ CHR ''@'' # v = CHR ''@'' # w"
    show ?thesis
    proof (cases us)
      case Nil
      with a show ?thesis by simp
    next
      case (Cons u us')
      with a have "u = CHR ''@''" by simp
      with a Cons assms(2) have "CHR ''@'' \<in> set (tl n)"
        by (cases m) (auto simp: npm_name_def)
      with assms(1) show ?thesis by (simp add: npm_name_def)
    qed
  next
    assume a: "n @ us = m \<and> CHR ''@'' # v = us @ CHR ''@'' # w"
    show ?thesis
    proof (cases us)
      case Nil
      with a show ?thesis by simp
    next
      case (Cons u us')
      with a have "u = CHR ''@''" by simp
      with a Cons assms(1) have "CHR ''@'' \<in> set (tl m)"
        by (cases n) (auto simp: npm_name_def)
      with assms(2) show ?thesis by (simp add: npm_name_def)
    qed
  qed
qed

lemma request_declared:
  assumes "q \<in> set (requestsOf X C m v)"
  shows "\<exists>pkg \<in> set (filteredPackages C). pkg_name pkg = q \<and> m \<in> fst ` set (pkg_allDependencies pkg)"
proof -
  from assms obtain pkg d where pkg: "pkg \<in> set (filteredPackages C)"
    and d: "d \<in> set (externalDependencies X C pkg)" and dn: "dep_name d = m"
    and q: "q = pkg_name pkg"
    by (auto simp: requestsOf_def split: if_splits)
  from d obtain kv where "kv \<in> set (pkg_allDependencies pkg)" "d = normalizeDependency X C kv"
    by (auto simp: externalDependencies_def set_object_entries)
  with dn have "m \<in> fst ` set (pkg_allDependencies pkg)"
    by (auto simp: normalizeDependency_name)
  with pkg q show ?thesis by blast
qed

lemma leaf_requested:
  assumes plan: "getDependenciesToInstall X C = Inr plan"
    and collect: "collectDependencies X C = Inr deps"
    and s: "s \<in> set (leafSpecs plan q)"
  shows "\<exists>m v. s = spec_string m v \<and> q \<in> set (requesters deps m v)
            \<and> Some v \<noteq> (case map_of deps m of Some info \<Rightarrow> rootVersionOf X C m info | None \<Rightarrow> None)"
proof -
  have ok: "agg_ok deps" using collectDependencies_spec [OF collect] by simp
  from s plan_spec [OF plan collect, of q] obtain e where
    e: "e \<in> set (object_entries deps)" and se: "s \<in> set (entryLeaves X C q e)"
    by auto
  obtain m info where me: "e = (m, info)" by (cases e)
  from e me ok have mo: "map_of deps m = Some info"
    by (simp add: set_object_entries agg_ok_def)
  from se me obtain v where "Some v \<noteq> rootVersionOf X C m info"
    and "s = spec_string m v" and "q \<in> set (depsOf info v)"
    by (auto simp: entryLeaves_def versionLeaves_def split: if_splits)
  then show ?thesis
    by (intro exI [of _ m] exI [of _ v]) (simp add: requesters_def mo)
qed

lemma seedRoot_keys: "fst ` set (seedRoot r) = fst ` set r"
proof -
  have "fst ` set (foldl (\<lambda>acc kv. AList.update (fst kv)
                \<lparr>versions = [(snd kv, 0)], dependents = [(snd kv, [])]\<rparr> acc) [] xs) = fst ` set xs"
    for xs :: "(string \<times> string) list"
    by (induction xs rule: rev_induct) (auto simp: dom_update)
  then show ?thesis by (simp add: seedRoot_def set_object_entries)
qed

lemma addDependency_keys:
  assumes "addDependency q d deps = Inr deps'"
  shows "fst ` set deps' = insert (dep_name d) (fst ` set deps)"
proof -
  from assms obtain info' where "deps' = AList.update (dep_name d) info' deps"
    by (auto simp: addDependency_def split: lookup.splits sum.splits)
  then show ?thesis by (simp add: dom_update)
qed

lemma collect_seeded:
  assumes "collectDependencies X C = Inr deps"
  shows "fst ` set (rootAllDependencies C) \<subseteq> fst ` set deps"
proof -
  let ?P = "\<lambda>t. fst ` set (rootAllDependencies C) \<subseteq> fst ` set t"
  have inner: "?P t'"
    if "fold_err (addDependency (pkg_name pkg)) (externalDependencies X C pkg) t = Inr t'"
      and "?P t" for pkg t t'
    by (rule fold_err_inv [OF that(1), where P = ?P]) (use that(2) addDependency_keys in auto)
  from assms have f: "fold_err (\<lambda>pkg. fold_err (addDependency (pkg_name pkg))
        (externalDependencies X C pkg)) (filteredPackages C) (seedRoot (rootAllDependencies C))
        = Inr deps"
    by (simp add: collectDependencies_def)
  show ?thesis
    by (rule fold_err_inv [OF f, where P = ?P]) (use inner in \<open>auto simp: seedRoot_keys\<close>)
qed

text \<open>
  Claim C10. A name that only the root manifest depends on, and that is not hoisted
  (hoisting is off, or \<^verbatim>\<open>isHoistedPackage\<close> rejects it), is a key of the aggregate without any
  requester, and the plan has no root install of that name and no leaf install whose spec
  is \<^verbatim>\<open>name@version\<close> for any version. Names have the shape of package names, so that a spec
  determines its name.
\<close>

theorem root_only_dependency_discarded:
  assumes plan: "getDependenciesToInstall X C = Inr plan"
    and collect: "collectDependencies X C = Inr deps"
    and seeded: "n \<in> fst ` set (rootAllDependencies C)"
    and unrequested: "\<forall>pkg \<in> set (filteredPackages C). n \<notin> fst ` set (pkg_allDependencies pkg)"
    and nohoist: "\<not> isHoisted X C n"
    and names: "npm_name n"
       "\<forall>pkg \<in> set (filteredPackages C). \<forall>m \<in> fst ` set (pkg_allDependencies pkg). npm_name m"
  shows "n \<in> fst ` set deps
       \<and> (\<forall>v. requesters deps n v = [])
       \<and> n \<notin> ri_name ` set (root plan)
       \<and> (\<forall>q ls l v. map_of (leaves plan) q = Some ls \<longrightarrow> l \<in> set ls
              \<longrightarrow> li_dependency l \<noteq> spec_string n v)"
proof -
  have key: "n \<in> fst ` set deps" using collect_seeded [OF collect] seeded by blast
  have none: "requesters deps n v = []" for v
  proof -
    have "requestsOf X C n v = []"
    proof (rule ccontr)
      assume "requestsOf X C n v \<noteq> []"
      then obtain q where "q \<in> set (requestsOf X C n v)"
        by (cases "requestsOf X C n v") auto
      from request_declared [OF this] unrequested show False by blast
    qed
    then show ?thesis using collectDependencies_spec [OF collect] by simp
  qed
  have "n \<notin> set (concat (map (entryRoots X C) (object_entries deps)))"
    using nohoist by (auto simp: entryRoots_def split: if_splits)
  then have noroot: "n \<notin> ri_name ` set (root plan)"
    using plan_spec [OF plan collect] by (metis set_map)
  have noleaf: "li_dependency l \<noteq> spec_string n v"
    if m: "map_of (leaves plan) q = Some ls" and l: "l \<in> set ls" for q ls l v
  proof
    assume eq: "li_dependency l = spec_string n v"
    have "li_dependency l \<in> set (leafSpecs plan q)" using m l by (auto simp: leafSpecs_mem)
    from leaf_requested [OF plan collect this] obtain m' w where
      s: "li_dependency l = spec_string m' w" and r: "q \<in> set (requesters deps m' w)"
      by blast
    from r have "q \<in> set (requestsOf X C m' w)"
      using collectDependencies_spec [OF collect] by simp
    from request_declared [OF this] obtain pkg where
      pkg: "pkg \<in> set (filteredPackages C)" and d: "m' \<in> fst ` set (pkg_allDependencies pkg)"
      by blast
    have "npm_name m'" using names(2) pkg d by blast
    moreover have "spec_string n v = spec_string m' w" using eq s by simp
    ultimately have "n = m'" using names(1) by (rule spec_string_name [rotated])
    with unrequested pkg d show False by blast
  qed
  show ?thesis using key none noroot noleaf by blast
qed

theorem root_only_dependency_discarded_witness:
  "getDependenciesToInstall ex_externals ex_mismatch = Inr ex_mismatch_plan
   \<and> collectDependencies ex_externals ex_mismatch = Inr ex_mismatch_deps
   \<and> ''lodash'' \<in> fst ` set (rootAllDependencies ex_mismatch)
   \<and> \<not> isHoisted ex_externals ex_mismatch ''lodash''
   \<and> npm_name ''lodash''
   \<and> ''lodash'' \<in> fst ` set ex_mismatch_deps
   \<and> ''lodash'' \<notin> ri_name ` set (root ex_mismatch_plan)
   \<and> ''b@^1.0.0'' \<noteq> spec_string ''lodash'' ''^1.0.0''"
proof -
  have seeded: "''lodash'' \<in> fst ` set (rootAllDependencies ex_mismatch)"
    by (simp add: ex_mismatch_def example_defs)
  have unrequested:
    "\<forall>pkg \<in> set (filteredPackages ex_mismatch). ''lodash'' \<notin> fst ` set (pkg_allDependencies pkg)"
    by (simp add: ex_mismatch_def ex_mismatch_a_def example_defs)
  have nohoist: "\<not> isHoisted ex_externals ex_mismatch ''lodash''"
    by (simp add: isHoisted_def truthy_def ex_mismatch_def example_defs)
  have n1: "npm_name ''lodash''" by (simp add: npm_name_def)
  have n2: "\<forall>pkg \<in> set (filteredPackages ex_mismatch).
              \<forall>m \<in> fst ` set (pkg_allDependencies pkg). npm_name m"
    by (simp add: ex_mismatch_def ex_mismatch_a_def example_defs npm_name_def)
  have l: "map_of (leaves ex_mismatch_plan) ''a''
             = Some [\<lparr>li_dependency = ''b@^1.0.0'', li_isSatisfied = False\<rparr>]"
    by (simp add: ex_mismatch_plan_def)
  note inst = root_only_dependency_discarded
    [OF ex_mismatch_planned ex_mismatch_collected seeded unrequested nohoist n1 n2]
  from inst l have "li_dependency \<lparr>li_dependency = ''b@^1.0.0'', li_isSatisfied = False\<rparr>
      \<noteq> spec_string ''lodash'' ''^1.0.0''"
    by (metis list.set_intros(1))
  with inst show ?thesis
    using ex_mismatch_planned ex_mismatch_collected seeded nohoist n1 by simp
qed

section \<open>The dependents of a root install\<close>

lemma fold_err_step:
  assumes "fold_err f xs s = Inr s'" and "x \<in> set xs"
  shows "\<exists>t t'. f x t = Inr t'"
  using assms
proof (induction xs arbitrary: s)
  case Nil
  then show ?case by simp
next
  case (Cons y ys)
  from Cons.prems(1) obtain t where t: "f y s = Inr t" and r: "fold_err f ys t = Inr s'"
    by (auto split: sum.splits)
  show ?case
  proof (cases "x = y")
    case True
    with t show ?thesis by blast
  next
    case False
    with Cons.prems(2) have "x \<in> set ys" by simp
    from Cons.IH [OF r this] show ?thesis .
  qed
qed

lemma placeDependency_root:
  assumes a: "placeDependency X C e st = Inr st'"
  shows "root st' = root st \<and> \<not> isHoisted X C (fst e)
       \<or> (\<exists>r ds. isHoisted X C (fst e)
             \<and> rootVersionOf X C (fst e) (snd e) = Some r
             \<and> commonVersion (versions (snd e)) = Inr (commonOf (snd e))
             \<and> rootVersionFor C (fst e) (commonOf (snd e)) = Inr r
             \<and> rootDependents C (snd e) r = Inr ds
             \<and> root st' = root st @ [\<lparr>ri_name = fst e, ri_dependents = ds,
                     ri_dependency = spec_string (fst e) r,
                     ri_isSatisfied = repositoryHasDependencyInstalled X (fst e) r\<rparr>])"
proof -
  from a obtain rv st1 where
    h: "hoistDependency X C (fst e) (snd e) st = Inr (rv, st1)"
    and f: "fold_err (addLeaves X C (fst e) (snd e) rv) (object_keys (versions (snd e))) st1
              = Inr st'"
    by (auto simp: placeDependency_def split: sum.splits)
  have r: "root st' = root st1"
    by (rule fold_err_inv [OF f, where P = "\<lambda>t. root t = root st1"]) (auto dest: addLeaves_spec)
  from hoistDependency_spec [OF h] r show ?thesis
    by (cases "isHoisted X C (fst e)") auto
qed

lemma hoisted_entry:
  assumes plan: "getDependenciesToInstall X C = Inr plan"
    and collect: "collectDependencies X C = Inr deps"
    and e: "map_of deps n = Some info" and h: "isHoisted X C n"
  shows "\<exists>r. rootVersionOf X C n info = Some r
           \<and> commonVersion (versions info) = Inr (commonOf info)
           \<and> rootVersionFor C n (commonOf info) = Inr r"
proof -
  from plan collect have
    f: "fold_err (placeDependency X C) (object_entries deps)
          \<lparr>root = [], leaves = [], warnings = []\<rparr> = Inr plan"
    by (simp add: getDependenciesToInstall_def)
  have "(n, info) \<in> set (object_entries deps)"
    using e by (simp add: set_object_entries map_of_SomeD)
  from fold_err_step [OF f this] obtain t t' where "placeDependency X C (n, info) t = Inr t'"
    by blast
  from placeDependency_root [OF this] h show ?thesis by auto
qed



lemma filter_key_short:
  "distinct (map f xs) \<Longrightarrow> length (filter (\<lambda>x. f x = a \<and> Q x) xs) \<le> Suc 0"
proof (induction xs)
  case Nil
  then show ?case by simp
next
  case (Cons x xs)
  show ?case
  proof (cases "f x = a")
    case True
    with Cons.prems have "\<forall>y \<in> set xs. f y \<noteq> a" by (auto simp: image_iff)
    then have "filter (\<lambda>x. f x = a \<and> Q x) xs = []" by (simp add: filter_empty_conv)
    then show ?thesis by simp
  next
    case False
    with Cons show ?thesis by simp
  qed
qed

lemma distinct_external_names:
  assumes "distinct (map fst (pkg_allDependencies pkg))"
  shows "distinct (map dep_name (externalDependencies X C pkg))"
proof -
  have eq: "map dep_name (map (normalizeDependency X C) (object_entries (pkg_allDependencies pkg)))
        = map fst (object_entries (pkg_allDependencies pkg))"
    by (simp add: o_def normalizeDependency_name)
  have "distinct (map dep_name (map (normalizeDependency X C)
               (object_entries (pkg_allDependencies pkg))))"
    unfolding eq by (rule distinct_object_entries [OF assms])
  then show ?thesis
    unfolding externalDependencies_def by (rule distinct_map_filter)
qed

lemma concat_singletons:
  "concat (map (\<lambda>x. if P x then [g x] else []) xs) = map g (filter P xs)"
  by (induction xs) auto

lemma distinct_requestsOf:
  assumes names: "distinct (map pkg_name (filteredPackages C))"
    and dists: "\<forall>pkg \<in> set (filteredPackages C). distinct (map fst (pkg_allDependencies pkg))"
  shows "distinct (requestsOf X C n v)"
proof -
  let ?R = "\<lambda>pkg. filter (\<lambda>d. dep_name d = n \<and> dep_version d = v) (externalDependencies X C pkg)"
  have one: "concat (map (\<lambda>d. if dep_name d = n \<and> dep_version d = v then [pkg_name pkg] else [])
                      (externalDependencies X C pkg))
             = (if ?R pkg \<noteq> [] then [pkg_name pkg] else [])"
    if "pkg \<in> set (filteredPackages C)" for pkg
  proof -
    have flat: "concat (map (\<lambda>d. if dep_name d = n \<and> dep_version d = v then [a] else []) ds)
          = replicate (length (filter (\<lambda>d. dep_name d = n \<and> dep_version d = v) ds)) a"
      for ds :: "dep list" and a :: string
      by (induction ds) auto
    have "length (?R pkg) \<le> Suc 0"
      using distinct_external_names dists that by (intro filter_key_short) blast
    then have "length (?R pkg) = 0 \<or> length (?R pkg) = Suc 0" by linarith
    then show ?thesis unfolding flat by auto
  qed
  have "requestsOf X C n v =
        concat (map (\<lambda>pkg. if ?R pkg \<noteq> [] then [pkg_name pkg] else []) (filteredPackages C))"
    unfolding requestsOf_def using one by (intro arg_cong [where f = concat] map_cong) auto
  also have "\<dots> = map pkg_name (filter (\<lambda>pkg. ?R pkg \<noteq> []) (filteredPackages C))"
    by (rule concat_singletons)
  finally show ?thesis using names by (simp add: distinct_map_filter)
qed



section \<open>The warnings\<close>

lemma ex_empty_range_collected:
  "collectDependencies ex_externals ex_empty_range = Inr ex_empty_range_deps"
  by (simp add: model_defs example_defs ex_empty_range_def ex_empty_range_deps_def)

lemma ex_empty_range_planned:
  "getDependenciesToInstall ex_externals ex_empty_range = Inr ex_empty_range_plan"
  by (simp add: model_defs example_defs ex_empty_range_def ex_empty_range_plan_def)

lemma ex_react_collected:
  "collectDependencies ex_externals ex_react = Inr [(''react'', ex_react_info)]"
  by (simp add: model_defs example_defs ex_react_def ex_react_info_def)

lemma ex_react_planned:
  "\<exists>plan. getDependenciesToInstall ex_externals ex_react = Inr plan
      \<and> warnings plan = ex_react_warnings"
  by (simp add: model_defs example_defs ex_react_def ex_react_warnings_def)

lemma count_list_distinct:
  "distinct xs \<Longrightarrow> count_list xs x = (if x \<in> set xs then 1 else 0)"
  by (induction xs) auto

lemma count_list_concat_key:
  assumes d: "distinct (map g xs)"
    and other: "\<And>y. y \<in> set xs \<Longrightarrow> g y \<noteq> a \<Longrightarrow> count_list (F y) w = 0"
  shows "count_list (concat (map F xs)) w =
         (case List.find (\<lambda>y. g y = a) xs of None \<Rightarrow> 0 | Some x \<Rightarrow> count_list (F x) w)"
  using assms
proof (induction xs)
  case Nil
  then show ?case by simp
next
  case (Cons x xs)
  show ?case
  proof (cases "g x = a")
    case True
    with Cons.prems(1) have "\<forall>y \<in> set xs. g y \<noteq> a" by (auto simp: image_iff)
    then have "count_list (concat (map F xs)) w = 0"
      using Cons.prems(2) by (simp add: count_list_concat)
    with True show ?thesis by simp
  next
    case False
    then have "count_list (F x) w = 0" using Cons.prems(2) by simp
    with False Cons show ?thesis by simp
  qed
qed

lemma find_key:
  "distinct (map fst xs) \<Longrightarrow> map_of xs k = Some v \<Longrightarrow> List.find (\<lambda>e. fst e = k) xs = Some (k, v)"
  by (induction xs) (auto split: if_splits)

lemma find_id:
  "List.find (\<lambda>y. y = a) xs = (if a \<in> set xs then Some a else None)"
  by (induction xs) auto

lemma pkgWarnings_root_count:
  "count_list (concat (map (pkgWarning m v' rv) ps)) (EHOIST_ROOT_VERSION n r c) = 0"
  by (induction ps) (auto simp: pkgWarning_def split: option.splits)

lemma pkgWarnings_pkg_count:
  "count_list (concat (map (pkgWarning m v' rv) ps)) (EHOIST_PKG_VERSION q n v r) =
     (if m = n \<and> v' = v \<and> rv = Some r \<and> r \<noteq> [] then count_list ps q else 0)"
  by (induction ps) (auto simp: pkgWarning_def split: option.splits)

lemma versionWarnings_root_count:
  "count_list (versionWarnings m info rv v') (EHOIST_ROOT_VERSION n r c) = 0"
  by (simp add: versionWarnings_def pkgWarnings_root_count)

lemma versionWarnings_pkg_count:
  "count_list (versionWarnings m info rv v') (EHOIST_PKG_VERSION q n v r) =
     (if m = n \<and> v' = v \<and> rv = Some r \<and> r \<noteq> [] \<and> v \<noteq> r
      then count_list (depsOf info v) q else 0)"
  by (auto simp: versionWarnings_def pkgWarnings_pkg_count)

lemma entry_root_count:
  "count_list (entryWarnings X C e) (EHOIST_ROOT_VERSION n r c) =
     (if fst e = n \<and> rootVersionOf X C (fst e) (snd e) = Some r \<and> c = commonOf (snd e) \<and> r \<noteq> c
      then 1 else 0)"
proof -
  have "count_list (concat (map (versionWarnings (fst e) (snd e) (rootVersionOf X C (fst e) (snd e)))
          (object_keys (versions (snd e))))) (EHOIST_ROOT_VERSION n r c) = 0"
    by (simp add: count_list_concat versionWarnings_root_count)
  then show ?thesis
    by (auto simp: entryWarnings_def rootWarning_def split: option.splits)
qed

lemma entry_pkg_count:
  assumes ok: "info_ok (snd e)"
  shows "count_list (entryWarnings X C e) (EHOIST_PKG_VERSION q n v r) =
     (if fst e = n \<and> rootVersionOf X C (fst e) (snd e) = Some r \<and> r \<noteq> [] \<and> v \<noteq> r
      then count_list (depsOf (snd e) v) q else 0)"
proof -
  let ?rv = "rootVersionOf X C (fst e) (snd e)"
  let ?keys = "object_keys (versions (snd e))"
  have d: "distinct (map id ?keys)"
    using ok by (simp add: info_ok_def object_keys_def distinct_object_entries)
  have "count_list (concat (map (versionWarnings (fst e) (snd e) ?rv) ?keys))
          (EHOIST_PKG_VERSION q n v r) =
        (case List.find (\<lambda>y. id y = v) ?keys of None \<Rightarrow> 0
         | Some x \<Rightarrow> count_list (versionWarnings (fst e) (snd e) ?rv x) (EHOIST_PKG_VERSION q n v r))"
    by (rule count_list_concat_key [OF d]) (simp add: versionWarnings_pkg_count)
  also have "\<dots> = (if v \<in> set ?keys
                    then count_list (versionWarnings (fst e) (snd e) ?rv v) (EHOIST_PKG_VERSION q n v r)
                    else 0)"
    by (simp add: find_id)
  finally have keys: "count_list (concat (map (versionWarnings (fst e) (snd e) ?rv) ?keys))
          (EHOIST_PKG_VERSION q n v r) =
        (if v \<in> set ?keys
         then count_list (versionWarnings (fst e) (snd e) ?rv v) (EHOIST_PKG_VERSION q n v r)
         else 0)" .
  have absent: "depsOf (snd e) v = []" if "v \<notin> set ?keys"
  proof -
    from that have "map_of (versions (snd e)) v = None"
      by (simp add: set_object_keys map_of_eq_None_iff)
    with ok have "map_of (dependents (snd e)) v = None" by (simp add: info_ok_def)
    then show ?thesis by (simp add: depsOf_def)
  qed
  have "count_list (rootWarning (fst e) (snd e) ?rv) (EHOIST_PKG_VERSION q n v r) = 0"
    by (simp add: rootWarning_def split: option.splits)
  then show ?thesis
    using absent by (auto simp: entryWarnings_def keys versionWarnings_pkg_count)
qed

lemma plan_root_count:
  assumes plan: "getDependenciesToInstall X C = Inr plan"
    and collect: "collectDependencies X C = Inr deps"
    and entry: "map_of deps n = Some info"
  shows "count_list (warnings plan) (EHOIST_ROOT_VERSION n r c) =
           count_list (entryWarnings X C (n, info)) (EHOIST_ROOT_VERSION n r c)"
proof -
  have ok: "agg_ok deps" using collectDependencies_spec [OF collect] by simp
  then have d: "distinct (map fst (object_entries deps))"
    by (simp add: agg_ok_def distinct_object_entries)
  have m: "map_of (object_entries deps) n = Some info"
    using ok entry by (simp add: agg_ok_def map_of_object_entries)
  have "count_list (concat (map (entryWarnings X C) (object_entries deps))) (EHOIST_ROOT_VERSION n r c)
        = (case List.find (\<lambda>e. fst e = n) (object_entries deps) of None \<Rightarrow> 0
           | Some x \<Rightarrow> count_list (entryWarnings X C x) (EHOIST_ROOT_VERSION n r c))"
    by (rule count_list_concat_key [OF d]) (simp add: entry_root_count)
  then show ?thesis
    using plan_spec [OF plan collect] by (simp add: find_key [OF d m])
qed

lemma plan_pkg_count:
  assumes plan: "getDependenciesToInstall X C = Inr plan"
    and collect: "collectDependencies X C = Inr deps"
    and entry: "map_of deps n = Some info"
  shows "count_list (warnings plan) (EHOIST_PKG_VERSION q n v r) =
           count_list (entryWarnings X C (n, info)) (EHOIST_PKG_VERSION q n v r)"
proof -
  have ok: "agg_ok deps" using collectDependencies_spec [OF collect] by simp
  then have d: "distinct (map fst (object_entries deps))"
    by (simp add: agg_ok_def distinct_object_entries)
  have m: "map_of (object_entries deps) n = Some info"
    using ok entry by (simp add: agg_ok_def map_of_object_entries)
  have oks: "info_ok (snd e)" if "e \<in> set (object_entries deps)" for e
  proof -
    from that have "(fst e, snd e) \<in> set deps" by (simp add: set_object_entries)
    with ok have "map_of deps (fst e) = Some (snd e)" by (simp add: agg_ok_def)
    with ok show ?thesis unfolding agg_ok_def by blast
  qed
  have "count_list (concat (map (entryWarnings X C) (object_entries deps))) (EHOIST_PKG_VERSION q n v r)
        = (case List.find (\<lambda>e. fst e = n) (object_entries deps) of None \<Rightarrow> 0
           | Some x \<Rightarrow> count_list (entryWarnings X C x) (EHOIST_PKG_VERSION q n v r))"
    by (rule count_list_concat_key [OF d]) (simp add: entry_pkg_count oks)
  then show ?thesis
    using plan_spec [OF plan collect] by (simp add: find_key [OF d m])
qed

lemma rootVersionFor_differs:
  assumes "rootVersionFor C n c = Inr r"
  shows "r \<noteq> c \<longleftrightarrow> (\<exists>d. map_of (rootAllDependencies C) n = Some d \<and> d \<noteq> [] \<and> d \<noteq> c)"
  using assms
  by (cases "map_of (rootAllDependencies C) n")
     (auto simp: rootVersionFor_def js_get_def split: if_splits)

lemma ex_empty_root_collected:
  "collectDependencies ex_externals ex_empty_root = Inr [(''left-pad'', ex_empty_root_info)]"
  by (simp add: model_defs example_defs ex_empty_root_def ex_empty_root_info_def)

lemma ex_empty_root_planned:
  "getDependenciesToInstall ex_externals ex_empty_root = Inr ex_empty_root_plan"
  by (simp add: model_defs example_defs ex_empty_root_def ex_empty_root_plan_def)

text \<open>
  The warnings of a plan, for a name of the aggregate. If the name is hoisted it has a
  root version, and (1) \<^verbatim>\<open>EHOIST_ROOT_VERSION\<close> is emitted for it once, naming the root version
  and the common version, if these differ, and not at all otherwise; they differ exactly
  when the root manifest has a range for the name that is not the empty string and is not
  the common version; (2) if the root version is not the empty string,
  \<^verbatim>\<open>EHOIST_PKG_VERSION\<close> is emitted exactly once for every requester and range of the name
  whose range is not the root version, and for nothing else. If the name is not hoisted,
  neither warning is emitted for it and every requester gets its leaf install. The counts
  rest on the filtered packages having distinct names. So the code emits the warnings of
  the spec whenever no empty range is in play.
\<close>

lemma hoist_warnings:
  assumes plan: "getDependenciesToInstall X C = Inr plan"
    and collect: "collectDependencies X C = Inr deps"
    and names: "distinct (map pkg_name (filteredPackages C))"
    and dists: "\<forall>pkg \<in> set (filteredPackages C). distinct (map fst (pkg_allDependencies pkg))"
    and entry: "map_of deps n = Some info"
  shows "(isHoisted X C n \<longrightarrow>
           (\<exists>rv. rootVersionOf X C n info = Some rv
              \<and> (\<forall>r c. count_list (warnings plan) (EHOIST_ROOT_VERSION n r c) =
                      (if r = rv \<and> c = commonOf info \<and> rv \<noteq> commonOf info then 1 else 0))
              \<and> (rv \<noteq> commonOf info \<longleftrightarrow>
                   (\<exists>d. map_of (rootAllDependencies C) n = Some d \<and> d \<noteq> [] \<and> d \<noteq> commonOf info))
              \<and> (rv \<noteq> [] \<longrightarrow>
                   (\<forall>q v r. count_list (warnings plan) (EHOIST_PKG_VERSION q n v r) =
                      (if r = rv \<and> v \<noteq> rv \<and> q \<in> set (requesters deps n v) then 1 else 0)))))
       \<and> (\<not> isHoisted X C n \<longrightarrow>
           (\<forall>r c. count_list (warnings plan) (EHOIST_ROOT_VERSION n r c) = 0)
           \<and> (\<forall>q v r. count_list (warnings plan) (EHOIST_PKG_VERSION q n v r) = 0)
           \<and> (\<forall>q v. q \<in> set (requesters deps n v) \<longrightarrow>
                 (\<exists>ls. map_of (leaves plan) q = Some ls
                     \<and> spec_string n v \<in> li_dependency ` set ls)))"
proof (intro conjI impI)
  assume h: "isHoisted X C n"
  from hoisted_entry [OF plan collect entry h] obtain rv where
    rv: "rootVersionOf X C n info = Some rv"
    and rf: "rootVersionFor C n (commonOf info) = Inr rv"
    by blast
  have ok: "info_ok info"
    using collectDependencies_spec [OF collect] entry by (auto simp: agg_ok_def)
  have dep: "distinct (depsOf info v)" for v
    using distinct_requestsOf [OF names dists, of X n v] collectDependencies_spec [OF collect, of n v]
    by (simp add: requesters_def entry)
  have rootc: "count_list (warnings plan) (EHOIST_ROOT_VERSION n r c) =
                 (if r = rv \<and> c = commonOf info \<and> rv \<noteq> commonOf info then 1 else 0)" for r c
    unfolding plan_root_count [OF plan collect entry] entry_root_count
    by (auto simp: rv)
  have pkgc: "count_list (warnings plan) (EHOIST_PKG_VERSION q n v r) =
                 (if r = rv \<and> v \<noteq> rv \<and> q \<in> set (requesters deps n v) then 1 else 0)"
    if "rv \<noteq> []" for q v r
    unfolding plan_pkg_count [OF plan collect entry]
    using that ok by (auto simp: entry_pkg_count rv requesters_def entry count_list_distinct [OF dep])
  show "\<exists>rv. rootVersionOf X C n info = Some rv
              \<and> (\<forall>r c. count_list (warnings plan) (EHOIST_ROOT_VERSION n r c) =
                      (if r = rv \<and> c = commonOf info \<and> rv \<noteq> commonOf info then 1 else 0))
              \<and> (rv \<noteq> commonOf info \<longleftrightarrow>
                   (\<exists>d. map_of (rootAllDependencies C) n = Some d \<and> d \<noteq> [] \<and> d \<noteq> commonOf info))
              \<and> (rv \<noteq> [] \<longrightarrow>
                   (\<forall>q v r. count_list (warnings plan) (EHOIST_PKG_VERSION q n v r) =
                      (if r = rv \<and> v \<noteq> rv \<and> q \<in> set (requesters deps n v) then 1 else 0)))"
    using rv rootc pkgc rootVersionFor_differs [OF rf] by blast
next
  assume nh: "\<not> isHoisted X C n"
  have ok: "info_ok info"
    using collectDependencies_spec [OF collect] entry by (auto simp: agg_ok_def)
  have rv: "rootVersionOf X C n info = None" using nh by (simp add: rootVersionOf_def)
  show "\<forall>r c. count_list (warnings plan) (EHOIST_ROOT_VERSION n r c) = 0"
    unfolding plan_root_count [OF plan collect entry] entry_root_count by (simp add: rv)
  show "\<forall>q v r. count_list (warnings plan) (EHOIST_PKG_VERSION q n v r) = 0"
    unfolding plan_pkg_count [OF plan collect entry] using ok by (simp add: entry_pkg_count rv)
  show "\<forall>q v. q \<in> set (requesters deps n v) \<longrightarrow>
                 (\<exists>ls. map_of (leaves plan) q = Some ls
                     \<and> spec_string n v \<in> li_dependency ` set ls)"
    using unhoisted_leaf [OF plan collect _ nh] by (simp add: leafSpecs_mem)
qed

lemma ex_react_warned:
  "\<exists>plan. getDependenciesToInstall ex_externals ex_react = Inr plan
      \<and> collectDependencies ex_externals ex_react = Inr [(''react'', ex_react_info)]
      \<and> distinct (map pkg_name (filteredPackages ex_react))
      \<and> isHoisted ex_externals ex_react ''react''
      \<and> rootVersionOf ex_externals ex_react ''react'' ex_react_info = Some ''^0.14.0''
      \<and> commonOf ex_react_info = ''15.x''
      \<and> count_list (warnings plan) (EHOIST_ROOT_VERSION ''react'' ''^0.14.0'' ''15.x'') = 1
      \<and> count_list (warnings plan) (EHOIST_PKG_VERSION ''c1'' ''react'' ''15.x'' ''^0.14.0'') = 1
      \<and> count_list (warnings plan) (EHOIST_PKG_VERSION ''c4'' ''react'' ''^0.14.0'' ''^0.14.0'') = 0"
proof -
  from ex_react_planned obtain plan where
    plan: "getDependenciesToInstall ex_externals ex_react = Inr plan" by blast
  have names: "distinct (map pkg_name (filteredPackages ex_react))"
    by (simp add: ex_react_def example_defs)
  have dists: "\<forall>pkg \<in> set (filteredPackages ex_react). distinct (map fst (pkg_allDependencies pkg))"
    by (simp add: ex_react_def example_defs)
  have entry: "map_of [(''react'', ex_react_info)] ''react'' = Some ex_react_info" by simp
  have h: "isHoisted ex_externals ex_react ''react''"
    by (simp add: isHoisted_def truthy_def ex_react_def example_defs)
  have c: "commonOf ex_react_info = ''15.x''"
    by (simp add: commonOf_def ex_react_info_def model_defs)
  have rv: "rootVersionOf ex_externals ex_react ''react'' ex_react_info = Some ''^0.14.0''"
    by (simp add: rootVersionOf_def h c) (simp add: rootVersionFor_def js_get_def ex_react_def example_defs)
  have r1: "''c1'' \<in> set (requesters [(''react'', ex_react_info)] ''react'' ''15.x'')"
    by (simp add: requesters_def depsOf_def ex_react_info_def)
  note inst = hoist_warnings [OF plan ex_react_collected names dists entry]
  from inst h rv have
    a: "\<forall>r c. count_list (warnings plan) (EHOIST_ROOT_VERSION ''react'' r c) =
           (if r = ''^0.14.0'' \<and> c = commonOf ex_react_info \<and> ''^0.14.0'' \<noteq> commonOf ex_react_info
            then 1 else 0)"
    and b: "\<forall>q v r. count_list (warnings plan) (EHOIST_PKG_VERSION q ''react'' v r) =
           (if r = ''^0.14.0'' \<and> v \<noteq> ''^0.14.0''
               \<and> q \<in> set (requesters [(''react'', ex_react_info)] ''react'' v)
            then 1 else 0)"
    by auto
  show ?thesis
    using plan ex_react_collected names h rv c a b r1 by simp
qed

text \<open>
  Claim C3. The claim has \<^verbatim>\<open>EHOIST_ROOT_VERSION\<close> emitted for a hoisted name whenever the root
  manifest has a range for it that differs from the common version, and
  \<^verbatim>\<open>EHOIST_PKG_VERSION\<close> once for every requester and range that differs from the root
  version. Lines 335 and 358 compare the versions strictly, but lines 333 and 361 test
  them for truthiness, and the empty range is falsy. In the first repository \<^verbatim>\<open>left-pad\<close>
  is hoisted at the empty range, \<^verbatim>\<open>a\<close> asks for \<^verbatim>\<open>^1.0.0\<close> and gets its leaf install, and no
  \<^verbatim>\<open>EHOIST_PKG_VERSION\<close> is emitted. In the second the root manifest's range for the hoisted
  \<^verbatim>\<open>left-pad\<close> is the empty string, the common version is \<^verbatim>\<open>^1.0.0\<close>, which is installed in the
  root, and no \<^verbatim>\<open>EHOIST_ROOT_VERSION\<close> is emitted.
\<close>

theorem empty_range_warnings:
  "getDependenciesToInstall ex_externals ex_empty_range = Inr ex_empty_range_plan
   \<and> collectDependencies ex_externals ex_empty_range = Inr ex_empty_range_deps
   \<and> isHoisted ex_externals ex_empty_range ''left-pad''
   \<and> map ri_dependency (root ex_empty_range_plan) = [spec_string ''left-pad'' []]
   \<and> requesters ex_empty_range_deps ''left-pad'' ''^1.0.0'' = [''a'']
   \<and> ''^1.0.0'' \<noteq> []
   \<and> map_of (leaves ex_empty_range_plan) ''a''
       = Some [\<lparr>li_dependency = ''left-pad@^1.0.0'', li_isSatisfied = False\<rparr>]
   \<and> warnings ex_empty_range_plan = []
   \<and> getDependenciesToInstall ex_externals ex_empty_root = Inr ex_empty_root_plan
   \<and> collectDependencies ex_externals ex_empty_root = Inr [(''left-pad'', ex_empty_root_info)]
   \<and> isHoisted ex_externals ex_empty_root ''left-pad''
   \<and> map_of (rootAllDependencies ex_empty_root) ''left-pad'' = Some []
   \<and> commonOf ex_empty_root_info = ''^1.0.0''
   \<and> map ri_dependency (root ex_empty_root_plan) = [''left-pad@^1.0.0'']
   \<and> warnings ex_empty_root_plan = []"
proof -
  have "commonOf ex_empty_root_info = ''^1.0.0''"
    by (simp add: commonOf_def ex_empty_root_info_def model_defs)
  then show ?thesis
    using ex_empty_range_planned ex_empty_range_collected ex_empty_root_planned
      ex_empty_root_collected
    by (simp add: isHoisted_def truthy_def ex_empty_range_def ex_empty_root_def example_defs
          ex_empty_range_plan_def ex_empty_root_plan_def ex_empty_range_deps_def
          requesters_def depsOf_def spec_string_def)
qed

section \<open>The order of the lifecycle scripts\<close>

lemma drain_no_start: "drain running tr \<Longrightarrow> ScriptStart p \<notin> set tr"
  by (induction rule: drain.induct) auto

lemma batch_run_events:
  assumes "batch_run c pending running tr ok"
  shows "(\<forall>p. ScriptStart p \<in> set tr \<longrightarrow> p \<in> set pending)
       \<and> (ok \<longrightarrow> (\<forall>p \<in> set pending \<union> set running. ScriptFinish p \<in> set tr))"
  using assms
proof (induction rule: batch_run.induct)
  case batch_done
  show ?case by simp
next
  case (batch_start p pending running tr ok)
  have sub: "set (remove1 p pending) \<subseteq> set pending" by (rule set_remove1_subset)
  have rest: "q \<in> set (remove1 p pending)" if "q \<in> set pending" "q \<noteq> p" for q
    using that by simp
  show ?case
  proof (intro conjI allI impI ballI)
    fix q assume "ScriptStart q \<in> set (ScriptStart p # tr)"
    then show "q \<in> set pending"
      using batch_start.hyps(1) batch_start.IH sub by auto
  next
    fix q assume ok and "q \<in> set pending \<union> set running"
    then show "ScriptFinish q \<in> set (ScriptStart p # tr)"
      using batch_start.IH rest [of q] by (cases "q = p") auto
  qed
next
  case (batch_finish p running pending tr ok)
  have rest: "q \<in> set (remove1 p running)" if "q \<in> set running" "q \<noteq> p" for q
    using that by simp
  show ?case
  proof (intro conjI allI impI ballI)
    fix q assume "ScriptStart q \<in> set (ScriptFinish p # tr)"
    then show "q \<in> set pending" using batch_finish.IH by auto
  next
    fix q assume ok and "q \<in> set pending \<union> set running"
    then show "ScriptFinish q \<in> set (ScriptFinish p # tr)"
      using batch_finish.IH rest [of q] by (cases "q = p") auto
  qed
next
  case (batch_fail p running tr pending)
  then show ?case using drain_no_start by auto
qed

lemma batches_before_start:
  assumes "runParallelBatches c bs tr ok" and "tr = pre @ ScriptStart a # post"
  shows "\<exists>i < length bs. a \<in> set (bs ! i)
           \<and> (\<forall>j < i. \<forall>b \<in> set (bs ! j). ScriptFinish b \<in> set pre)"
  using assms
proof (induction arbitrary: pre post rule: runParallelBatches.induct)
  case batches_done
  then show ?case by simp
next
  case (batches_next b tr1 bs tr2 ok)
  note ev = batch_run_events [OF batches_next.hyps(1)]
  have first: "\<forall>q \<in> set b. ScriptFinish q \<in> set tr1" using ev by simp
  have later: ?case
    if split: "tr2 = us @ ScriptStart a # post" and pre: "set tr1 \<union> set us \<subseteq> set pre" for us
  proof -
    from batches_next.IH [OF split] obtain i where i: "i < length bs" "a \<in> set (bs ! i)"
      and fin: "\<forall>j < i. \<forall>q \<in> set (bs ! j). ScriptFinish q \<in> set us"
      by blast
    have "\<forall>j < Suc i. \<forall>q \<in> set ((b # bs) ! j). ScriptFinish q \<in> set pre"
    proof (intro allI impI)
      fix j assume "j < Suc i"
      then show "\<forall>q \<in> set ((b # bs) ! j). ScriptFinish q \<in> set pre"
        using first fin pre by (cases j) auto
    qed
    with i show ?thesis by (intro exI [of _ "Suc i"]) simp
  qed
  from batches_next.prems obtain us where
    "(tr1 = pre @ us \<and> us @ tr2 = ScriptStart a # post)
     \<or> (tr1 @ us = pre \<and> tr2 = us @ ScriptStart a # post)"
    by (auto simp: append_eq_append_conv2)
  then show ?case
  proof
    assume a1: "tr1 = pre @ us \<and> us @ tr2 = ScriptStart a # post"
    show ?thesis
    proof (cases us)
      case Nil
      with a1 show ?thesis by (intro later [of "[]"]) auto
    next
      case (Cons u us')
      with a1 have "ScriptStart a \<in> set tr1" by auto
      with ev have "a \<in> set b" by blast
      then show ?thesis by (intro exI [of _ 0]) simp
    qed
  next
    assume "tr1 @ us = pre \<and> tr2 = us @ ScriptStart a # post"
    then show ?thesis by (intro later [of us]) auto
  qed
next
  case (batches_abort b tr bs)
  from batch_run_events [OF batches_abort.hyps] batches_abort.prems have "a \<in> set b" by auto
  then show ?case by (intro exI [of _ 0]) simp
qed

text \<open>
  The batches hold the packages given, and a package comes in a later batch than every
  package given that it depends on.
\<close>

lemma batches_layered:
  assumes "topologicallyBatchPackages X ps = Inr bs"
  shows "set (concat bs) = set ps
       \<and> (\<forall>i < length bs. \<forall>A \<in> set (bs ! i). \<forall>B \<in> set ps.
             dependsOn X A B \<longrightarrow> (\<exists>j < i. B \<in> set (bs ! j)))"
  using assms
proof (induction X ps arbitrary: bs rule: topologicallyBatchPackages.induct)
  case (1 X ps)
  show ?case
  proof (cases "ps = []")
    case True
    with "1.prems" show ?thesis by (simp add: topologicallyBatchPackages.simps [of X "[]"])
  next
    case False
    let ?rest = "filter (\<lambda>p. p \<notin> set (ready X ps)) ps"
    from "1.prems" False have r: "ready X ps \<noteq> []"
      by (auto simp: topologicallyBatchPackages.simps [of X ps] split: if_splits)
    with "1.prems" False obtain bs' where rest: "topologicallyBatchPackages X ?rest = Inr bs'"
      and bs: "bs = ready X ps # bs'"
      by (auto simp: topologicallyBatchPackages.simps [of X ps] split: sum.splits)
    note IH = "1.IH" [OF False r rest]
    have sub: "set (ready X ps) \<subseteq> set ps" by (auto simp: ready_def)
    have cover: "set (concat bs) = set ps"
      using IH sub by (auto simp: bs)
    have layer: "\<exists>j < i. B \<in> set (bs ! j)"
      if i: "i < length bs" and A: "A \<in> set (bs ! i)" and B: "B \<in> set ps"
        and d: "dependsOn X A B" for i A B
    proof (cases i)
      case 0
      with A have "A \<in> set (ready X ps)" by (simp add: bs)
      then have "\<not> list_ex (dependsOn X A) ps" by (simp add: ready_def)
      with B d show ?thesis by (simp add: list_ex_iff)
    next
      case (Suc i')
      with i A have i': "i' < length bs'" and A': "A \<in> set (bs' ! i')" by (simp_all add: bs)
      show ?thesis
      proof (cases "B \<in> set (ready X ps)")
        case True
        then have "B \<in> set (bs ! 0)" by (simp add: bs)
        with Suc show ?thesis by blast
      next
        case False
        with B have "B \<in> set ?rest" by simp
        with IH i' A' d obtain j' where "j' < i'" "B \<in> set (bs' ! j')" by blast
        then have "Suc j' < i" "B \<in> set (bs ! Suc j')" by (simp_all add: Suc bs)
        then show ?thesis by blast
      qed
    qed
    from cover layer show ?thesis by blast
  qed
qed

text \<open>
  The batching fails only when some of the packages depend on each other in a circle: on a
  non-empty set of them each of which depends on one of the set.
\<close>

lemma batching_fails:
  assumes "topologicallyBatchPackages X ps = Inl e"
  shows "\<exists>qs. qs \<noteq> [] \<and> set qs \<subseteq> set ps \<and> (\<forall>A \<in> set qs. \<exists>B \<in> set qs. dependsOn X A B)"
  using assms
proof (induction X ps rule: topologicallyBatchPackages.induct)
  case (1 X ps)
  from "1.prems" have ne: "ps \<noteq> []"
    by (auto simp: topologicallyBatchPackages.simps [of X ps] split: if_splits)
  show ?case
  proof (cases "ready X ps = []")
    case True
    then have "\<forall>A \<in> set ps. list_ex (dependsOn X A) ps"
      by (simp add: ready_def filter_empty_conv)
    then have "\<forall>A \<in> set ps. \<exists>B \<in> set ps. dependsOn X A B" by (simp add: list_ex_iff)
    with ne show ?thesis by blast
  next
    case False
    let ?rest = "filter (\<lambda>p. p \<notin> set (ready X ps)) ps"
    from "1.prems" ne False have "topologicallyBatchPackages X ?rest = Inl e"
      by (auto simp: topologicallyBatchPackages.simps [of X ps] split: sum.splits)
    from "1.IH" [OF ne False this] obtain qs where "qs \<noteq> []" "set qs \<subseteq> set ?rest"
      "\<forall>A \<in> set qs. \<exists>B \<in> set qs. dependsOn X A B" by blast
    then show ?thesis by (intro exI [of _ qs]) auto
  qed
qed

lemma ex_sibling_batches:
  "topologicallyBatchPackages ex_externals (filteredPackages ex_sibling)
     = Inr [[mk_package ''b'' ''1.2.3'' []], [ex_sibling_a]]"
proof -
  let ?a = "mk_package ''a'' ''1.0.0'' [(''b'', ''^1.0.0'')]"
  let ?b = "mk_package ''b'' ''1.2.3'' []"
  have ab: "?a \<noteq> ?b" by (simp add: example_defs)
  have r1: "ready ex_externals [?a, ?b] = [?b]"
    by (simp add: ready_def dependsOn_def truthy_def example_defs)
  have r2: "ready ex_externals [?a] = [?a]"
    by (simp add: ready_def dependsOn_def truthy_def example_defs)
  have "topologicallyBatchPackages ex_externals [?a] = Inr [[?a]]"
    by (simp add: topologicallyBatchPackages.simps [of _ "[?a]"] r2
          topologicallyBatchPackages.simps [of _ "[]"])
  then have "topologicallyBatchPackages ex_externals [?a, ?b] = Inr [[?b], [?a]]"
    using ab by (simp add: topologicallyBatchPackages.simps [of _ "[?a, ?b]"] r1)
  then show ?thesis by (simp add: ex_sibling_def ex_sibling_a_def mk_command_def)
qed

lemma ex_mismatch_batches:
  "topologicallyBatchPackages ex_externals (filteredPackages ex_mismatch)
     = Inr [[ex_mismatch_a, mk_package ''b'' ''2.0.0'' []]]"
proof -
  let ?a = "mk_package ''a'' ''1.0.0'' [(''b'', ''^1.0.0'')]"
  let ?b = "mk_package ''b'' ''2.0.0'' []"
  have r1: "ready ex_externals [?a, ?b] = [?a, ?b]"
    by (simp add: ready_def dependsOn_def truthy_def example_defs)
  have "topologicallyBatchPackages ex_externals [?a, ?b] = Inr [[?a, ?b]]"
    by (simp add: topologicallyBatchPackages.simps [of _ "[?a, ?b]"] r1
          topologicallyBatchPackages.simps [of _ "[]"])
  then show ?thesis by (simp add: ex_mismatch_def ex_mismatch_a_def mk_command_def)
qed

lemma run_one_by_one:
  assumes "p \<noteq> q"
  shows "batch_run (Suc 0) [p, q] []
           [ScriptStart p, ScriptFinish p, ScriptStart q, ScriptFinish q] True"
proof -
  have b: "batch_run (Suc 0) [q] [] [ScriptStart q, ScriptFinish q] True"
    by (rule batch_start [where p = q]; simp?)
       (rule batch_finish [where p = q]; simp add: batch_done)
  show ?thesis
    by (rule batch_start [where p = p]; simp?)
       (rule batch_finish [where p = p]; simp add: b assms)
qed

lemma ex_sorted_run:
  "runScriptInPackages ex_externals ex_sibling 1
     [ScriptStart ''b'', ScriptFinish ''b'', ScriptStart ''a'', ScriptFinish ''a''] True"
proof -
  have one: "batch_run 1 [p] [] [ScriptStart p, ScriptFinish p] True" for p
    by (rule batch_start [where p = p]; simp?)
       (rule batch_finish [where p = p]; simp add: batch_done)
  have "runParallelBatches 1 [[''b''], [''a'']]
          ([ScriptStart ''b'', ScriptFinish ''b''] @ [ScriptStart ''a'', ScriptFinish ''a''] @ []) True"
    by (intro batches_next batches_done one)
  moreover have "toposort ex_sibling" "filteredPackages ex_sibling \<noteq> []"
    by (simp_all add: ex_sibling_def example_defs)
  ultimately show ?thesis
    by (simp add: runScriptInPackages_def batchedPackages_def ex_sibling_batches)
       (simp add: ex_sibling_a_def example_defs)
qed

lemma ex_unsorted_run:
  "runScriptInPackages ex_externals ex_unsorted 1
     [ScriptStart ''a'', ScriptFinish ''a'', ScriptStart ''b'', ScriptFinish ''b''] True"
proof -
  have "runParallelBatches (Suc 0) [[''a'', ''b'']]
          ([ScriptStart ''a'', ScriptFinish ''a'', ScriptStart ''b'', ScriptFinish ''b''] @ []) True"
    by (intro batches_next batches_done run_one_by_one) simp
  then show ?thesis
    by (simp add: runScriptInPackages_def batchedPackages_def ex_unsorted_def
          ex_sibling_def ex_sibling_a_def example_defs)
qed

lemma ex_mismatch_run:
  "runScriptInPackages ex_externals ex_mismatch 1
     [ScriptStart ''a'', ScriptFinish ''a'', ScriptStart ''b'', ScriptFinish ''b''] True"
proof -
  have "runParallelBatches (Suc 0) [[''a'', ''b'']]
          ([ScriptStart ''a'', ScriptFinish ''a'', ScriptStart ''b'', ScriptFinish ''b''] @ []) True"
    by (intro batches_next batches_done run_one_by_one) simp
  moreover have "toposort ex_mismatch" "filteredPackages ex_mismatch \<noteq> []"
    by (simp_all add: ex_mismatch_def example_defs)
  ultimately show ?thesis
    by (simp add: runScriptInPackages_def batchedPackages_def ex_mismatch_batches)
       (simp add: ex_mismatch_a_def example_defs)
qed

text \<open>
  Claim C9, as the code has it. When sorting is on, in every run of a lifecycle phase (there
  is one only if the batching found no cycle), for filtered packages \<open>A\<close> and \<open>B\<close> such that
  \<open>A\<close> declares the name of \<open>B\<close> with a range that is empty or that the version of \<open>B\<close>
  satisfies, the script of \<open>B\<close> has finished before any start of the script of \<open>A\<close>. Package
  names are distinct.
\<close>

theorem batch_ordering:
  assumes run: "runScriptInPackages X C c tr ok"
    and sorted: "toposort C"
    and names: "distinct (map pkg_name (filteredPackages C))"
    and A: "A \<in> set (filteredPackages C)" and B: "B \<in> set (filteredPackages C)"
    and dep: "dependsOn X A B"
  shows "\<forall>pre post. tr = pre @ ScriptStart (pkg_name A) # post
           \<longrightarrow> ScriptFinish (pkg_name B) \<in> set pre"
proof (intro allI impI)
  fix pre post assume tr: "tr = pre @ ScriptStart (pkg_name A) # post"
  from A have ne: "filteredPackages C \<noteq> []" by auto
  from run sorted obtain bs where bs: "topologicallyBatchPackages X (filteredPackages C) = Inr bs"
    and r: "runParallelBatches c (map (map pkg_name) bs) tr ok"
    using ne by (auto simp: runScriptInPackages_def batchedPackages_def split: sum.splits)
  from batches_before_start [OF r tr] obtain i where i: "i < length bs"
    and a: "pkg_name A \<in> set (map (map pkg_name) bs ! i)"
    and fin: "\<forall>j < i. \<forall>b \<in> set (map (map pkg_name) bs ! j). ScriptFinish b \<in> set pre"
    by auto
  from a i obtain A' where A': "A' \<in> set (bs ! i)" and n: "pkg_name A' = pkg_name A"
    by auto
  note layered = batches_layered [OF bs]
  from i have "bs ! i \<in> set bs" by simp
  with A' have "A' \<in> set (concat bs)" by auto
  with layered have "A' \<in> set (filteredPackages C)" by simp
  with names A n have "A' = A" by (simp add: distinct_map inj_on_def)
  with layered i A' B dep obtain j where j: "j < i" and Bj: "B \<in> set (bs ! j)" by blast
  from j i have "pkg_name B \<in> set (map (map pkg_name) bs ! j)" using Bj by simp
  with j show "ScriptFinish (pkg_name B) \<in> set pre" using fin by blast
qed

theorem batch_ordering_witness:
  "runScriptInPackages ex_externals ex_sibling 1
     [ScriptStart ''b'', ScriptFinish ''b'', ScriptStart ''a'', ScriptFinish ''a''] True
   \<and> toposort ex_sibling
   \<and> distinct (map pkg_name (filteredPackages ex_sibling))
   \<and> ex_sibling_a \<in> set (filteredPackages ex_sibling)
   \<and> mk_package ''b'' ''1.2.3'' [] \<in> set (filteredPackages ex_sibling)
   \<and> dependsOn ex_externals ex_sibling_a (mk_package ''b'' ''1.2.3'' [])
   \<and> ScriptFinish ''b'' \<in> set [ScriptStart ''b'', ScriptFinish ''b'']"
proof -
  have sorted: "toposort ex_sibling" by (simp add: ex_sibling_def example_defs)
  have names: "distinct (map pkg_name (filteredPackages ex_sibling))"
    by (simp add: ex_sibling_def ex_sibling_a_def example_defs)
  have A: "ex_sibling_a \<in> set (filteredPackages ex_sibling)"
    by (simp add: ex_sibling_def example_defs)
  have B: "mk_package ''b'' ''1.2.3'' [] \<in> set (filteredPackages ex_sibling)"
    by (simp add: ex_sibling_def example_defs)
  have dep: "dependsOn ex_externals ex_sibling_a (mk_package ''b'' ''1.2.3'' [])"
    by (simp add: dependsOn_def truthy_def ex_sibling_a_def example_defs)
  have na: "pkg_name ex_sibling_a = ''a''" by (simp add: ex_sibling_a_def example_defs)
  have nb: "pkg_name (mk_package ''b'' ''1.2.3'' []) = ''b''" by (simp add: example_defs)
  from batch_ordering [OF ex_sorted_run sorted names A B dep]
  have "ScriptFinish ''b'' \<in> set [ScriptStart ''b'', ScriptFinish ''b'']"
    unfolding na nb by (metis append_Cons append_Nil)
  then show ?thesis
    using ex_sorted_run sorted names A B dep by simp
qed

text \<open>
  The claim as stated holds for every pair of filtered packages of which one depends on the
  other. With sorting off, line 66 makes one batch of all filtered packages; with \<^verbatim>\<open>a\<close>
  depending on \<^verbatim>\<open>b\<close> and one script at a time, the script of \<^verbatim>\<open>a\<close> runs to its end before
  that of \<^verbatim>\<open>b\<close> starts. With sorting on, and \<^verbatim>\<open>a\<close> declaring \<^verbatim>\<open>b@^1.0.0\<close> while the repo-local
  \<^verbatim>\<open>b\<close> is at \<^verbatim>\<open>2.0.0\<close>, there is no edge from \<^verbatim>\<open>a\<close> to \<^verbatim>\<open>b\<close>, both are in the first batch,
  and the same run is possible.
\<close>

theorem batch_ordering_counterexample:
  "\<not> toposort ex_unsorted
   \<and> filteredPackages ex_unsorted = [ex_sibling_a, mk_package ''b'' ''1.2.3'' []]
   \<and> pkg_name ex_sibling_a = ''a''
   \<and> pkg_allDependencies ex_sibling_a = [(''b'', ''^1.0.0'')]
   \<and> dependsOn ex_externals ex_sibling_a (mk_package ''b'' ''1.2.3'' [])
   \<and> runScriptInPackages ex_externals ex_unsorted 1
        [ScriptStart ''a'', ScriptFinish ''a'', ScriptStart ''b'', ScriptFinish ''b''] True
   \<and> toposort ex_mismatch
   \<and> filteredPackages ex_mismatch = [ex_mismatch_a, mk_package ''b'' ''2.0.0'' []]
   \<and> pkg_name ex_mismatch_a = ''a''
   \<and> pkg_allDependencies ex_mismatch_a = [(''b'', ''^1.0.0'')]
   \<and> \<not> dependsOn ex_externals ex_mismatch_a (mk_package ''b'' ''2.0.0'' [])
   \<and> runScriptInPackages ex_externals ex_mismatch 1
        [ScriptStart ''a'', ScriptFinish ''a'', ScriptStart ''b'', ScriptFinish ''b''] True"
  using ex_unsorted_run ex_mismatch_run
  by (simp add: ex_unsorted_def ex_sibling_def ex_sibling_a_def ex_mismatch_def ex_mismatch_a_def
        dependsOn_def truthy_def example_defs)

section \<open>When the planner raises\<close>

lemma fold_err_error:
  "fold_err f xs s = Inl e \<Longrightarrow> \<exists>x \<in> set xs. \<exists>t. f x t = Inl e"
proof (induction xs arbitrary: s)
  case Nil
  then show ?case by simp
next
  case (Cons x xs)
  then show ?case by (cases "f x s") auto
qed

lemma map_err_error:
  "map_err f xs = Inl e \<Longrightarrow> \<exists>x \<in> set xs. f x = Inl e"
proof (induction xs)
  case Nil
  then show ?case by simp
next
  case (Cons x xs)
  then show ?case by (cases "f x"; cases "map_err f xs") auto
qed

lemma fold_err_total:
  assumes "P s"
    and "\<And>x t. x \<in> set xs \<Longrightarrow> P t \<Longrightarrow> \<exists>t'. f x t = Inr t' \<and> P t'"
  shows "\<exists>s'. fold_err f xs s = Inr s' \<and> P s'"
  using assms
proof (induction xs arbitrary: s)
  case Nil
  then show ?case by simp
next
  case (Cons x xs)
  from Cons.prems(2) [of x s] Cons.prems(1) obtain t where t: "f x s = Inr t" "P t" by auto
  have "\<exists>s'. fold_err f xs t = Inr s' \<and> P s'"
  proof (rule Cons.IH [OF t(2)])
    fix y u assume "y \<in> set xs" "P u"
    then show "\<exists>t'. f y u = Inr t' \<and> P t'" using Cons.prems(2) [of y u] by simp
  qed
  with t show ?case by simp
qed

lemma collect_seeded_names:
  assumes "collectDependencies X C = Inr deps" and "n \<in> fst ` set deps"
  shows "js_get (rootAllDependencies C) n \<noteq> Inherited"
proof -
  let ?Q = "\<lambda>t. \<forall>n \<in> fst ` set t. n \<in> set object_prototype_names
                    \<longrightarrow> n \<in> fst ` set (rootAllDependencies C)"
  have step: "?Q t'" if a: "addDependency q d t = Inr t'" and t: "?Q t" for q d t t'
  proof -
    have "dep_name d \<in> fst ` set t \<or> dep_name d \<notin> set object_prototype_names"
    proof (cases "map_of t (dep_name d)")
      case None
      with a show ?thesis by (auto simp: addDependency_def js_get_def split: if_splits)
    next
      case (Some info)
      then have "(dep_name d, info) \<in> set t" by (rule map_of_SomeD)
      then have "dep_name d \<in> fst ` set t" by force
      then show ?thesis ..
    qed
    then show ?thesis unfolding addDependency_keys [OF a] using t by blast
  qed
  have inner: "?Q t'"
    if "fold_err (addDependency (pkg_name pkg)) (externalDependencies X C pkg) t = Inr t'"
      and "?Q t" for pkg t t'
  proof (rule fold_err_inv [OF that(1), where P = ?Q])
    show "?Q t" by (rule that(2))
  next
    fix d u u' assume "?Q u" "addDependency (pkg_name pkg) d u = Inr u'"
    then show "?Q u'" by (rule step [rotated])
  qed
  from assms(1) have f: "fold_err (\<lambda>pkg. fold_err (addDependency (pkg_name pkg))
        (externalDependencies X C pkg)) (filteredPackages C) (seedRoot (rootAllDependencies C))
        = Inr deps"
    by (simp add: collectDependencies_def)
  have "?Q deps"
  proof (rule fold_err_inv [OF f, where P = ?Q])
    show "?Q (seedRoot (rootAllDependencies C))" by (simp add: seedRoot_keys)
  next
    fix pkg u u'
    assume "?Q u"
      "fold_err (addDependency (pkg_name pkg)) (externalDependencies X C pkg) u = Inr u'"
    then show "?Q u'" by (rule inner [rotated])
  qed
  with assms(2) show ?thesis
    by (auto simp: js_get_def map_of_eq_None_iff split: option.splits)
qed

lemma planner_never_unmodelled:
  "getDependenciesToInstall X C \<noteq> Inl Unmodelled"
proof
  assume u: "getDependenciesToInstall X C = Inl Unmodelled"
  have rec: "recordVersion q v d \<noteq> Inl Unmodelled" for q v d
    by (auto simp: recordVersion_def Let_def split: lookup.splits)
  have add: "addDependency q d t \<noteq> Inl Unmodelled" for q d t
    using rec by (auto simp: addDependency_def split: lookup.splits sum.splits)
  have col: "collectDependencies X C \<noteq> Inl Unmodelled"
  proof
    assume "collectDependencies X C = Inl Unmodelled"
    from fold_err_error [OF this [unfolded collectDependencies_def]]
    obtain pkg t where "fold_err (addDependency (pkg_name pkg)) (externalDependencies X C pkg) t
        = Inl Unmodelled" by blast
    from fold_err_error [OF this] add show False by blast
  qed
  with u obtain deps where collect: "collectDependencies X C = Inr deps"
    and f: "fold_err (placeDependency X C) (object_entries deps)
              \<lparr>root = [], leaves = [], warnings = []\<rparr> = Inl Unmodelled"
    by (cases "collectDependencies X C") (auto simp: getDependenciesToInstall_def)
  from fold_err_error [OF f] obtain e t where e: "e \<in> set (object_entries deps)"
    and p: "placeDependency X C e t = Inl Unmodelled" by blast
  have leaf: "addLeaf X C n v rv q st \<noteq> Inl Unmodelled" for n v rv q st
    by (auto simp: addLeaf_def ownOrEmpty_def split: lookup.splits sum.splits option.splits)
  have leaves: "addLeaves X C n info rv v st \<noteq> Inl Unmodelled" for n info rv v st
  proof
    assume "addLeaves X C n info rv v st = Inl Unmodelled"
    then obtain ps where "fold_err (addLeaf X C n v rv) ps st = Inl Unmodelled"
      by (auto simp: addLeaves_def split: if_splits option.splits)
    from fold_err_error [OF this] leaf show False by blast
  qed
  have graph: "rootDependents C info r \<noteq> Inl Unmodelled" for info r
  proof
    assume "rootDependents C info r = Inl Unmodelled"
    then obtain ps where "map_err (graphPackage C) ps = Inl Unmodelled"
      by (auto simp: rootDependents_def split: lookup.splits)
    from map_err_error [OF this] show False
      by (auto simp: graphPackage_def split: option.splits)
  qed
  have common: "commonVersion vs \<noteq> Inl Unmodelled" for vs
    by (auto simp: commonVersion_def split: list.splits)
  from p have "hoistDependency X C (fst e) (snd e) t = Inl Unmodelled"
    using leaves
    by (cases "hoistDependency X C (fst e) (snd e) t")
       (auto simp: placeDependency_def dest!: fold_err_error)
  then have "rootVersionFor C (fst e) (commonOf (snd e)) = Inl Unmodelled"
    using graph common
    by (auto simp: hoistDependency_def commonOf_def split: if_splits sum.splits)
  then have "js_get (rootAllDependencies C) (fst e) = Inherited"
    by (auto simp: rootVersionFor_def split: lookup.splits)
  moreover have "fst e \<in> fst ` set deps" using e by (simp add: set_object_entries)
  ultimately show False using collect_seeded_names [OF collect, of "fst e"] by simp
qed

section \<open>When the planner returns\<close>

text \<open>
  On a well-formed command neither the planner nor the composition of the install actions
  raises, so the properties stated for the plans that are returned are not vacuous.
\<close>

lemma recordVersion_returns:
  assumes ok: "versions d = [] \<and> dependents d = [] \<or> info_ok d" and v: "plain v"
  shows "\<exists>d'. recordVersion q v d = Inr d'"
proof -
  have rel: "\<forall>w. map_of (versions d) w = map_option length (map_of (dependents d) w)"
    using ok by (auto simp: info_ok_def)
  show ?thesis
  proof (cases "map_of (versions d) v")
    case None
    with v show ?thesis
      by (simp add: recordVersion_def Let_def js_get_def plain_def update_conv')
  next
    case (Some c)
    then obtain ps where ps: "map_of (dependents d) v = Some ps"
      using rel by (metis (no_types, lifting) map_option_eq_Some)
    with Some show ?thesis
      by (simp add: recordVersion_def Let_def js_get_def update_conv')
  qed
qed

lemma addDependency_returns:
  assumes ok: "agg_ok deps" and d: "plain (dep_name d)" "plain (dep_version d)"
  shows "\<exists>deps'. addDependency q d deps = Inr deps'"
proof (cases "map_of deps (dep_name d)")
  case None
  from recordVersion_returns [of "\<lparr>versions = [], dependents = []\<rparr>", OF _ d(2)]
  obtain d' where "recordVersion q (dep_version d) \<lparr>versions = [], dependents = []\<rparr> = Inr d'"
    by auto
  with None d(1) show ?thesis by (simp add: addDependency_def js_get_def plain_def)
next
  case (Some info)
  then have "info_ok info" using ok by (simp add: agg_ok_def)
  from recordVersion_returns [OF disjI2 [OF this] d(2)]
  obtain d' where "recordVersion q (dep_version d) info = Inr d'" by blast
  with Some show ?thesis by (simp add: addDependency_def js_get_def)
qed

lemma collect_returns:
  assumes wf: "well_formed X C"
  shows "\<exists>deps. collectDependencies X C = Inr deps"
proof -
  have inner: "\<exists>t'. fold_err (addDependency (pkg_name pkg)) (externalDependencies X C pkg) t = Inr t'
                 \<and> agg_ok t'"
    if pkg: "pkg \<in> set (filteredPackages C)" and t: "agg_ok t" for pkg t
  proof (rule fold_err_total [where P = agg_ok, OF t])
    fix d u assume d: "d \<in> set (externalDependencies X C pkg)" and u: "agg_ok u"
    from wf pkg d have "plain (dep_name d)" "plain (dep_version d)"
      by (auto simp: well_formed_def)
    from addDependency_returns [OF u this] obtain u' where
      a: "addDependency (pkg_name pkg) d u = Inr u'" by blast
    with addDependency_spec [OF a u] show "\<exists>t'. addDependency (pkg_name pkg) d u = Inr t' \<and> agg_ok t'"
      by blast
  qed
  have "\<exists>deps. fold_err (\<lambda>pkg. fold_err (addDependency (pkg_name pkg))
        (externalDependencies X C pkg)) (filteredPackages C) (seedRoot (rootAllDependencies C))
        = Inr deps \<and> agg_ok deps"
    by (rule fold_err_total [where P = agg_ok]) (use seedRoot_spec inner in auto)
  then show ?thesis by (auto simp: collectDependencies_def)
qed

lemma requesters_filtered:
  assumes "collectDependencies X C = Inr deps" and "q \<in> set (requesters deps n v)"
  shows "q \<in> pkg_name ` set (filteredPackages C)"
proof -
  from assms have "q \<in> set (requestsOf X C n v)"
    using collectDependencies_spec [OF assms(1)] by simp
  from request_declared [OF this] show ?thesis by blast
qed

lemma addLeaf_returns:
  assumes wf: "well_formed X C" and q: "q \<in> pkg_name ` set (filteredPackages C)"
  shows "\<exists>st'. addLeaf X C n v rv q st = Inr st'"
proof -
  from q obtain p where p: "p \<in> set (filteredPackages C)" and n: "pkg_name p = q" by auto
  with wf have pl: "plain q" and ex: "\<exists>r \<in> set (packages C). pkg_name r = q"
    by (auto simp: well_formed_def)
  from ex have "findPackage X C q None \<noteq> None"
    by (auto simp: findPackage_def truthy_def find_None_iff)
  then obtain r where "findPackage X C q None = Some r" by auto
  moreover have "\<exists>ls. ownOrEmpty (js_get (leaves st) q) = Inr ls"
    using pl by (cases "map_of (leaves st) q") (auto simp: ownOrEmpty_def js_get_def plain_def)
  ultimately show ?thesis by (auto simp: addLeaf_def)
qed

lemma placeDependency_returns:
  assumes wf: "well_formed X C" and collect: "collectDependencies X C = Inr deps"
    and e: "e \<in> set (object_entries deps)"
  shows "\<exists>st'. placeDependency X C e st = Inr st'"
proof -
  have ok: "agg_ok deps" using collectDependencies_spec [OF collect] by simp
  from e have m: "map_of deps (fst e) = Some (snd e)"
    using ok by (simp add: set_object_entries agg_ok_def)
  then have iok: "info_ok (snd e)" using ok unfolding agg_ok_def by blast
  have reqs: "set (depsOf (snd e) v) \<subseteq> pkg_name ` set (filteredPackages C)" for v
    using requesters_filtered [OF collect, of _ "fst e" v] by (auto simp: requesters_def m)
  have leaves: "\<exists>t'. fold_err (addLeaves X C (fst e) (snd e) rv) (object_keys (versions (snd e))) t
                   = Inr t' \<and> True" for rv t
  proof (rule fold_err_total [where P = "\<lambda>_. True"])
    fix v u assume v: "v \<in> set (object_keys (versions (snd e)))"
    then have "map_of (versions (snd e)) v \<noteq> None"
      by (simp add: set_object_keys map_of_eq_None_iff)
    with iok obtain ps where ps: "map_of (dependents (snd e)) v = Some ps"
      by (auto simp: info_ok_def)
    then have sub: "set ps \<subseteq> pkg_name ` set (filteredPackages C)"
      using reqs [of v] by (simp add: depsOf_def)
    have "\<exists>u'. fold_err (addLeaf X C (fst e) v rv) ps u = Inr u' \<and> True"
      by (rule fold_err_total [where P = "\<lambda>_. True"])
         (use sub addLeaf_returns [OF wf] in auto)
    then show "\<exists>t'. addLeaves X C (fst e) (snd e) rv v u = Inr t' \<and> True"
      by (auto simp: addLeaves_def ps)
  qed simp
  show ?thesis
  proof (cases "isHoisted X C (fst e)")
    case False
    then have "hoistDependency X C (fst e) (snd e) st = Inr (None, st)"
      by (simp add: hoistDependency_def)
    with leaves [of None st] show ?thesis by (auto simp: placeDependency_def)
  next
    case True
    have "object_keys (versions (snd e)) \<noteq> []"
      using iok by (metis info_ok_def set_object_keys empty_set image_is_empty set_empty2)
    then obtain c where c: "commonVersion (versions (snd e)) = Inr c"
      by (cases "object_keys (versions (snd e))") (auto simp: commonVersion_def)
    have "fst e \<in> fst ` set deps" using e by (simp add: set_object_entries)
    from collect_seeded_names [OF collect this] obtain r where
      r: "rootVersionFor C (fst e) c = Inr r"
      by (cases "js_get (rootAllDependencies C) (fst e)") (auto simp: rootVersionFor_def)
    have keyc: "c \<in> set (object_keys (versions (snd e)))"
    proof -
      obtain k ks where keys: "object_keys (versions (snd e)) = k # ks"
        using \<open>object_keys (versions (snd e)) \<noteq> []\<close> by (cases "object_keys (versions (snd e))") auto
      have "\<forall>x \<in> set (k # ks). map_of (versions (snd e)) x = Some (length (depsOf (snd e) x))"
        using info_ok_count [OF iok] keys by simp
      from foldl_moreCommon [OF this] c show ?thesis by (simp add: commonVersion_def keys)
    qed
    have "js_get (dependents (snd e)) r \<noteq> Inherited"
    proof (cases "r = c")
      case True
      with keyc have "map_of (versions (snd e)) r \<noteq> None"
        by (simp add: set_object_keys map_of_eq_None_iff)
      with iok have "map_of (dependents (snd e)) r \<noteq> None" by (auto simp: info_ok_def)
      then show ?thesis by (auto simp: js_get_def)
    next
      case False
      with r obtain kv where "kv \<in> set (rootAllDependencies C)" "snd kv = r"
        by (cases "map_of (rootAllDependencies C) (fst e)")
           (auto simp: rootVersionFor_def js_get_def split: if_splits dest!: map_of_SomeD)
      with wf have "plain r" by (auto simp: well_formed_def)
      then show ?thesis by (auto simp: js_get_def plain_def split: option.splits)
    qed
    moreover have "\<exists>ds. map_err (graphPackage C) (depsOf (snd e) r) = Inr ds"
    proof (rule map_err_total)
      fix q assume "q \<in> set (depsOf (snd e) r)"
      with reqs [of r] obtain p where "p \<in> set (filteredPackages C)" "pkg_name p = q" by auto
      with wf have "packageGraph C q \<noteq> None" by (auto simp: well_formed_def)
      then show "\<exists>y. graphPackage C q = Inr y" by (auto simp: graphPackage_def)
    qed
    ultimately obtain ds where "rootDependents C (snd e) r = Inr ds"
      by (cases "map_of (dependents (snd e)) r")
         (auto simp: rootDependents_def js_get_def depsOf_def split: if_splits)
    with True c r obtain st1 where "hoistDependency X C (fst e) (snd e) st = Inr (Some r, st1)"
      by (simp add: hoistDependency_def)
    with leaves [of "Some r" st1] show ?thesis by (auto simp: placeDependency_def)
  qed
qed

lemma planner_returns:
  assumes wf: "well_formed X C"
  shows "\<exists>plan. getDependenciesToInstall X C = Inr plan"
proof -
  from collect_returns [OF wf] obtain deps where collect: "collectDependencies X C = Inr deps" ..
  have "\<exists>plan. fold_err (placeDependency X C) (object_entries deps)
          \<lparr>root = [], leaves = [], warnings = []\<rparr> = Inr plan \<and> True"
    by (rule fold_err_total [where P = "\<lambda>_. True"])
       (use placeDependency_returns [OF wf collect] in auto)
  with collect show ?thesis by (auto simp: getDependenciesToInstall_def)
qed


lemma leaf_keys_filtered:
  assumes plan: "getDependenciesToInstall X C = Inr plan"
    and collect: "collectDependencies X C = Inr deps"
  shows "fst ` set (leaves plan) \<subseteq> pkg_name ` set (filteredPackages C)"
proof -
  let ?P = "\<lambda>st. fst ` set (leaves st) \<subseteq> pkg_name ` set (filteredPackages C)"
  have ok: "agg_ok deps" using collectDependencies_spec [OF collect] by simp
  from plan collect have
    f: "fold_err (placeDependency X C) (object_entries deps)
          \<lparr>root = [], leaves = [], warnings = []\<rparr> = Inr plan"
    by (simp add: getDependenciesToInstall_def)
  have leaf: "?P t'"
    if "addLeaf X C n v rv q t = Inr t'" "?P t" "q \<in> pkg_name ` set (filteredPackages C)"
    for n v rv q t t'
  proof -
    from that(1) obtain ls where "leaves t' = AList.update q ls (leaves t)"
      by (auto simp: addLeaf_def split: sum.splits option.splits)
    with that(2,3) show ?thesis by (simp add: dom_update)
  qed
  show ?thesis
  proof (rule fold_err_inv [OF f, where P = ?P])
    show "?P \<lparr>root = [], leaves = [], warnings = []\<rparr>" by simp
  next
    fix e t t'
    assume e: "e \<in> set (object_entries deps)" and t: "?P t"
      and p: "placeDependency X C e t = Inr t'"
    from e have m: "map_of deps (fst e) = Some (snd e)"
      using ok by (simp add: set_object_entries agg_ok_def)
    have reqs: "set (depsOf (snd e) v) \<subseteq> pkg_name ` set (filteredPackages C)" for v
      using requesters_filtered [OF collect, of _ "fst e" v] by (auto simp: requesters_def m)
    from p obtain rv t1 where
      h: "hoistDependency X C (fst e) (snd e) t = Inr (rv, t1)"
      and g: "fold_err (addLeaves X C (fst e) (snd e) rv) (object_keys (versions (snd e))) t1
                = Inr t'"
      by (auto simp: placeDependency_def split: sum.splits)
    have t1: "?P t1" using hoistDependency_leaves [OF h] t by simp
    show "?P t'"
    proof (rule fold_err_inv [OF g, where P = ?P])
      show "?P t1" by (rule t1)
    next
      fix v u u'
      assume u: "?P u" and a: "addLeaves X C (fst e) (snd e) rv v u = Inr u'"
      show "?P u'"
      proof (cases "Some v = rv")
        case True
        with a u show ?thesis by (simp add: addLeaves_def)
      next
        case False
        with a obtain ps where ps: "map_of (dependents (snd e)) v = Some ps"
          and k: "fold_err (addLeaf X C (fst e) v rv) ps u = Inr u'"
          by (auto simp: addLeaves_def split: option.splits)
        have sub: "set ps \<subseteq> pkg_name ` set (filteredPackages C)"
          using reqs [of v] by (simp add: depsOf_def ps)
        show ?thesis
        proof (rule fold_err_inv [OF k, where P = ?P])
          show "?P u" by (rule u)
        next
          fix q w w' assume "q \<in> set ps" "?P w" "addLeaf X C (fst e) v rv q w = Inr w'"
          with sub show "?P w'" using leaf [of "fst e" v rv q w w'] by blast
        qed
      qed
    qed
  qed
qed

lemma installer_returns:
  assumes wf: "well_formed X C"
  shows "\<exists>acts. installExternalDependencies X C = Inr acts"
proof -
  from planner_returns [OF wf] obtain plan where
    plan: "getDependenciesToInstall X C = Inr plan" ..
  from plan_collected [OF plan] obtain deps where
    collect: "collectDependencies X C = Inr deps" ..
  have "\<exists>pds. map_err (\<lambda>kv. case graphPackage C (fst kv) of
                           Inl e \<Rightarrow> Inl e
                         | Inr p \<Rightarrow> Inr (p, snd kv))
             (object_entries (leaves plan)) = Inr pds"
  proof (rule map_err_total)
    fix kv assume "kv \<in> set (object_entries (leaves plan))"
    then have "fst kv \<in> fst ` set (leaves plan)" by (simp add: set_object_entries)
    with leaf_keys_filtered [OF plan collect] obtain p where
      "p \<in> set (filteredPackages C)" "pkg_name p = fst kv" by auto
    with wf have "packageGraph C (fst kv) \<noteq> None" by (auto simp: well_formed_def)
    then show "\<exists>y. (case graphPackage C (fst kv) of Inl e \<Rightarrow> Inl e | Inr p \<Rightarrow> Inr (p, snd kv)) = Inr y"
      by (auto simp: graphPackage_def)
  qed
  then show ?thesis
    using plan by (auto simp: installExternalDependencies_def leafActions_def)
qed

lemma ex_leftpad_well_formed: "well_formed ex_externals ex_leftpad"
proof -
  have a: "externalDependencies ex_externals ex_leftpad
             (mk_package ''a'' ''1.0.0'' [(''left-pad'', ''^1.0.0'')])
           = [\<lparr>dep_name = ''left-pad'', dep_version = ''^1.0.0''\<rparr>]"
    by (simp add: model_defs example_defs ex_leftpad_def)
  have b: "externalDependencies ex_externals ex_leftpad
             (mk_package ''b'' ''1.0.0'' [(''left-pad'', ''^1.1.0'')])
           = [\<lparr>dep_name = ''left-pad'', dep_version = ''^1.1.0''\<rparr>]"
    by (simp add: model_defs example_defs ex_leftpad_def)
  have "filteredPackages ex_leftpad =
          [mk_package ''a'' ''1.0.0'' [(''left-pad'', ''^1.0.0'')],
           mk_package ''b'' ''1.0.0'' [(''left-pad'', ''^1.1.0'')]]"
    by (simp add: ex_leftpad_def mk_command_def)
  then show ?thesis
    unfolding well_formed_def
    by (simp add: a b plain_def object_prototype_names_def)
       (simp add: ex_leftpad_def example_defs)
qed

end
